theory Spec2Isabelle
  imports Complex_Main "HOL-Library.Word" "HOL-Library.Multiset" "HOL-Library.Sublist"
begin

section \<open>Numbers of the source language\<close>

text \<open>
  Every number in \<^verbatim>\<open>index.js\<close> is an IEEE 754 binary64 value. A finite binary64 value is a
  rational, so numbers are modelled as \<^typ>\<open>rat\<close> and every arithmetic operation of the source
  is the exact operation followed by \<open>fl\<close>, rounding to the nearest value with a 53-bit
  significand, ties to the even significand. Overflow and subnormal numbers are left out: all
  values the modelled code computes lie between \<open>2\<^sup>-\<^sup>5\<^sup>3\<close> and \<open>2\<^sup>5\<^sup>3\<close>.
\<close>

function bit_length :: "int \<Rightarrow> nat" where
  \<comment> \<open>the number of binary digits of a positive integer\<close>
  "bit_length k = (if k \<le> 0 then 0 else Suc (bit_length (k div 2)))"
  by pat_completeness auto
termination
  by (relation "measure nat") auto

declare bit_length.simps [simp del]

definition ilog2 :: "rat \<Rightarrow> int" where
  \<comment> \<open>the exponent \<open>e\<close> with \<open>2\<^sup>e \<le> q < 2\<^sup>e\<^sup>+\<^sup>1\<close>, for positive \<open>q\<close>\<close>
  "ilog2 q = (let (p, d) = quotient_of q;
                  e0 = int (bit_length p) - int (bit_length d)
              in if (2::rat) powi e0 \<le> q then e0 else e0 - 1)"

definition round_half_even :: "rat \<Rightarrow> int" where
  "round_half_even x = (let f = floor x; r = x - rat_of_int f
     in if r < 1 / 2 then f else if 1 / 2 < r then f + 1 else if even f then f else f + 1)"

definition fl :: "rat \<Rightarrow> rat" where
  "fl q = (if q = 0 then 0
           else let u = (2::rat) powi (ilog2 (abs q) - 52)
                in sgn q * rat_of_int (round_half_even (abs q / u)) * u)"

section \<open>The fairness value: \<^verbatim>\<open>hmacFloat\<close>\<close>

text \<open>
  \<^verbatim>\<open>crypto.createHmac('sha512', key).update(message).digest()\<close> belongs to the runtime, not to
  the repository: it is a parameter \<open>H\<close> of the model, a function from key and message to the
  64-byte digest, read as one 512-bit word (first byte most significant).
  \<^verbatim>\<open>digest('hex')\<close> writes the digest as 128 lower-case hexadecimal characters.
\<close>

type_synonym hmac = "string \<Rightarrow> string \<Rightarrow> 512 word"

definition hexdigit :: "nat \<Rightarrow> char" where
  "hexdigit n = ''0123456789abcdef'' ! n"

definition nibble :: "512 word \<Rightarrow> nat \<Rightarrow> nat" where
  \<comment> \<open>the \<open>i\<close>-th group of four bits, counted from the most significant end\<close>
  "nibble d i = unat (take_bit 4 (drop_bit (4 * (127 - i)) d))"

definition digest_hex :: "512 word \<Rightarrow> string" where
  "digest_hex d = map (\<lambda>i. hexdigit (nibble d i)) [0..<128]"

text \<open>
  \<^verbatim>\<open>parseInt(s, 16)\<close> reads the longest prefix of hexadecimal digits and is \<^verbatim>\<open>NaN\<close> (here
  \<open>None\<close>) when there is none. The sign, leading white space and a \<^verbatim>\<open>0x\<close> prefix that
  \<^verbatim>\<open>parseInt\<close> also accepts do not occur in the output of \<open>digest_hex\<close> and are not modelled.
\<close>

definition hexval :: "char \<Rightarrow> nat option" where
  "hexval c = (let k = of_char c :: nat in
     if 48 \<le> k \<and> k \<le> 57 then Some (k - 48)
     else if 97 \<le> k \<and> k \<le> 102 then Some (k - 87)
     else if 65 \<le> k \<and> k \<le> 70 then Some (k - 55)
     else None)"

fun parse_hex_digits :: "nat \<Rightarrow> string \<Rightarrow> nat" where
  "parse_hex_digits acc [] = acc"
| "parse_hex_digits acc (c # cs) =
     (case hexval c of None \<Rightarrow> acc | Some v \<Rightarrow> parse_hex_digits (16 * acc + v) cs)"

definition parseInt16 :: "string \<Rightarrow> nat option" where
  "parseInt16 s = (case s of [] \<Rightarrow> None
     | c # cs \<Rightarrow> (case hexval c of None \<Rightarrow> None | Some v \<Rightarrow> Some (parse_hex_digits 0 s)))"

definition hmacFloat :: "hmac \<Rightarrow> string \<Rightarrow> string \<Rightarrow> rat option" where
  "hmacFloat H serverSeed message =
     (let h = digest_hex (H serverSeed message);
          prefix = take 13 h;
          denom = fl (16 ^ 13)
      in case parseInt16 prefix of
           None \<Rightarrow> None
         | Some intVal \<Rightarrow> Some (fl (rat_of_nat intVal / denom)))"

text \<open>
  The template literal \<^verbatim>\<open>`${clientSeed1}:${clientSeed2}:${i}`\<close> of \<^verbatim>\<open>runBattleRoyale\<close>. The index
  \<open>i\<close> is an array index, hence below \<open>2\<^sup>3\<^sup>2\<close>, where the literal writes a number with all
  its decimal digits.
\<close>

fun decimal :: "nat \<Rightarrow> string" where
  "decimal n = (if n < 10 then [char_of (48 + n)]
                else decimal (n div 10) @ [char_of (48 + n mod 10)])"

declare decimal.simps [simp del]

definition pf_message :: "string \<Rightarrow> string \<Rightarrow> nat \<Rightarrow> string" where
  "pf_message clientSeed1 clientSeed2 i = clientSeed1 @ '':'' @ clientSeed2 @ '':'' @ decimal i"

definition derive :: "hmac \<Rightarrow> string \<Rightarrow> string \<Rightarrow> string \<Rightarrow> nat \<Rightarrow> rat option" where
  \<comment> \<open>the body of the loop that assigns \<^verbatim>\<open>e.pfFloat\<close> to the entry at index \<open>i\<close>\<close>
  "derive H serverSeed clientSeed1 clientSeed2 i =
     hmacFloat H serverSeed (pf_message clientSeed1 clientSeed2 i)"

section \<open>Data model\<close>

text \<open>
  Strings are lists of \<^typ>\<open>char\<close>, one \<^typ>\<open>char\<close> for one code unit below 256; strings with
  other code units are outside the model.

  An entry row \<^verbatim>\<open>{id, userId, username}\<close>; \<^verbatim>\<open>runBattleRoyale\<close> later adds the field
  \<^verbatim>\<open>pfFloat\<close> to the same object (\<open>None\<close> before that, and for \<^verbatim>\<open>NaN\<close>).
\<close>

record entry =
  entry_id :: string
  userId :: string
  username :: string
  pfFloat :: "rat option"

text \<open>
  A setup is free-form JSON posted to \<^verbatim>\<open>/api/setups\<close>. The model keeps the fields that
  \<^verbatim>\<open>$start\<close> and the join task read. A number in a setup is a 32-bit word read as a signed
  integer (\<^const>\<open>sint\<close>), \<open>None\<close> a missing or \<^verbatim>\<open>null\<close> field. For such an integer
  \<^verbatim>\<open>parseInt\<close> converts it to its decimal numeral and reads that back, which gives the integer
  itself. Numbers with a fraction or beyond 32 bits, strings and other JSON values in these
  fields are outside the type. An empty \<open>roleId\<close> is a missing one. \<open>roleEntries = None\<close> is
  a value that is not an array; an element \<open>None\<close> of the array is \<^verbatim>\<open>null\<close>, on which
  \<^verbatim>\<open>re.roleId\<close> throws.
\<close>

type_synonym jint = "32 word"

definition parseInt_num :: "jint \<Rightarrow> int" where
  \<comment> \<open>\<^verbatim>\<open>parseInt(k)\<close> for a number \<open>k\<close> of the type\<close>
  "parseInt_num k = sint k"

record role_entry =
  roleId :: string
  role_entries :: "jint option"

record setup_cfg =
  setup_name :: string
  collectDuration :: "jint option"
  baseEntries :: "jint option"
  roleEntries :: "role_entry option list option"

record giveaway =
  gw_id :: string
  gw_setup :: setup_cfg
  entries :: "entry list"
  entrantsByUser :: "string \<rightharpoonup> nat"
  collecting :: bool
  startAt :: int
  endAt :: int
  clientSeed1 :: "string option"
  clientSeed2 :: "string option"
  serverSeed :: string
  finalFloats :: "(string \<times> string \<times> rat option) list option"
  winner :: "entry option"

text \<open>
  \<open>winner\<close> holds the row as it is when the run assigns \<^verbatim>\<open>gw.winner\<close> and writes the data file.
  In the program \<^verbatim>\<open>gw.winner\<close> is the row object itself, so a later run that scores the rows
  again also changes the \<^verbatim>\<open>pfFloat\<close> seen through \<^verbatim>\<open>gw.winner\<close>; the model does not follow the
  field beyond the run that sets it.

  The button interaction of a join: the user, and the roles of the guild member when
  \<^verbatim>\<open>interaction.guild.members.fetch\<close> delivers one. \<open>None\<close> stands for every way in which it
  does not: the fetch is rejected (\<^verbatim>\<open>.catch(() => null)\<close>), or the lookup throws before the
  loop over the roles and the \<^verbatim>\<open>catch\<close> block around the role check logs the exception.
\<close>

record interaction =
  user_id :: string
  user_name :: string
  member_roles :: "string list option"

section \<open>The join task\<close>

definition base_count :: "setup_cfg \<Rightarrow> int" where
  \<comment> \<open>\<^verbatim>\<open>gw.setup.baseEntries ? parseInt(gw.setup.baseEntries) : 1\<close>\<close>
  "base_count s = (case baseEntries s of
                     None \<Rightarrow> 1
                   | Some b \<Rightarrow> if b = 0 then 1 else parseInt_num b)"

text \<open>
  The loop \<^verbatim>\<open>for (const re of gw.setup.roleEntries)\<close> inside \<^verbatim>\<open>try\<close>. At a \<^verbatim>\<open>null\<close> element
  \<^verbatim>\<open>re.roleId\<close> throws; the \<^verbatim>\<open>catch\<close> block logs, and \<^verbatim>\<open>entryCount\<close> keeps the value it has
  reached. In \<^verbatim>\<open>parseInt(re.entries || entryCount)\<close> a missing or zero \<^verbatim>\<open>entries\<close> gives
  \<^verbatim>\<open>entryCount\<close>, an integer, which \<^verbatim>\<open>parseInt\<close> returns unchanged.
\<close>

fun role_loop :: "string list \<Rightarrow> role_entry option list \<Rightarrow> int \<Rightarrow> int" where
  "role_loop roles [] entryCount = entryCount"
| "role_loop roles (None # res) entryCount = entryCount"
| "role_loop roles (Some re # res) entryCount =
     (if roleId re = [] then role_loop roles res entryCount
      else if roleId re \<in> set roles
      then role_loop roles res
             (max entryCount (case role_entries re of
                                None \<Rightarrow> entryCount
                              | Some k \<Rightarrow> if k = 0 then entryCount else parseInt_num k))
      else role_loop roles res entryCount)"

definition entryCount :: "setup_cfg \<Rightarrow> string list option \<Rightarrow> int" where
  "entryCount s member =
     (case member of
        None \<Rightarrow> base_count s
      | Some roles \<Rightarrow>
          (case roleEntries s of
             None \<Rightarrow> base_count s
           | Some res \<Rightarrow> role_loop roles res (base_count s)))"

text \<open>
  Row ids are \<^verbatim>\<open>`e_${Date.now()}_${Math.random()...}`\<close>; the model takes them from a
  function \<open>fresh\<close> of the position in the batch. The loop \<^verbatim>\<open>for (i = 0; i < entryCount; i++)\<close>
  runs \<open>nat entryCount\<close> times, that is, not at all for a count that is zero or negative.
\<close>

definition new_rows :: "(nat \<Rightarrow> string) \<Rightarrow> interaction \<Rightarrow> int \<Rightarrow> entry list" where
  "new_rows fresh i c =
     map (\<lambda>k. \<lparr>entry_id = fresh k, userId = user_id i, username = user_name i, pfFloat = None\<rparr>)
       [0..<nat c]"

definition join_task :: "(nat \<Rightarrow> string) \<Rightarrow> interaction \<Rightarrow> giveaway \<Rightarrow> giveaway \<times> nat" where
  "join_task fresh i gw =
     (let newEntries = new_rows fresh i (entryCount (gw_setup gw) (member_roles i));
          old = (case entrantsByUser gw (user_id i) of None \<Rightarrow> 0 | Some k \<Rightarrow> k)
      in (gw\<lparr>entries := entries gw @ newEntries,
              entrantsByUser := (entrantsByUser gw)(user_id i \<mapsto> old + length newEntries)\<rparr>,
          length newEntries))"

section \<open>Ranking\<close>

definition assign_floats :: "hmac \<Rightarrow> string \<Rightarrow> string \<Rightarrow> string \<Rightarrow> entry list \<Rightarrow> entry list" where
  "assign_floats H sSeed cs1 cs2 es =
     map (\<lambda>(i, e). e\<lparr>pfFloat := derive H sSeed cs1 cs2 i\<rparr>) (enumerate 0 es)"

text \<open>
  \<^verbatim>\<open>entries.sort((a,b) => b.pfFloat - a.pfFloat)\<close>. The fairness values are multiples of
  \<open>2\<^sup>-\<^sup>5\<^sup>2\<close> below 1, so the difference is exact and its sign is the order of the two values.
  \<^verbatim>\<open>Array.prototype.sort\<close> is stable (ECMAScript 2019), and a stable sort by a key has one
  result only, the one of \<^const>\<open>sort_key\<close>. Rows are objects with an identity; the model
  pairs each row with its index in the ledger to keep it. A row without a value would make
  the comparator return \<^verbatim>\<open>NaN\<close>; its key is set to 0 here, and \<open>derive\<close> never produces one.
\<close>

definition desc_key :: "nat \<times> entry \<Rightarrow> rat" where
  "desc_key ie = (case pfFloat (snd ie) of None \<Rightarrow> 0 | Some v \<Rightarrow> - v)"

definition sort_desc :: "(nat \<times> entry) list \<Rightarrow> (nat \<times> entry) list" where
  "sort_desc xs = sort_key desc_key xs"

section \<open>Rounds 1 to 3\<close>

text \<open>
  An event is a message that the run builds and hands to the platform: the announcements it
  sends and the edits of the giveaway message, with the numbers they display.
\<close>

datatype event =
    Send_no_entries
  | Send_start nat
  | Edit_round_preview nat nat nat
  | Send_round_result nat nat nat
  | Edit_final_preview nat nat
  | Send_winner entry
  | Edit_ended entry

definition rounds :: "rat list" where
  "rounds = [fl (30 / 100), fl (40 / 100), fl (25 / 100)]"

definition updates :: nat where
  "updates = 5"

definition frac :: "nat \<Rightarrow> rat" where
  \<comment> \<open>\<^verbatim>\<open>(u + 1) / updates\<close>\<close>
  "frac u = fl (rat_of_nat (u + 1) / rat_of_nat updates)"

definition eliminateCount :: "rat \<Rightarrow> nat \<Rightarrow> nat \<Rightarrow> int" where
  \<comment> \<open>\<^verbatim>\<open>Math.floor(eliminatePercent * currentEntries.length * frac)\<close>\<close>
  "eliminateCount eliminatePercent n u = floor (fl (fl (eliminatePercent * rat_of_nat n) * frac u))"

definition keepCount :: "nat \<Rightarrow> rat \<Rightarrow> nat" where
  \<comment> \<open>\<^verbatim>\<open>Math.max(1, Math.floor(currentEntries.length * (1 - eliminatePercent)))\<close>\<close>
  "keepCount n eliminatePercent =
     nat (max 1 (floor (fl (rat_of_nat n * fl (1 - eliminatePercent)))))"

definition play_round :: "nat \<Rightarrow> rat \<Rightarrow> 'a list \<Rightarrow> 'a list \<times> event list" where
  \<comment> \<open>the body of \<^verbatim>\<open>for (let r = 0; r < rounds.length; r++)\<close>\<close>
  "play_round r eliminatePercent currentEntries =
     (let n = length currentEntries;
          previews = map (\<lambda>u.
              let previewEntries =
                    take (nat (max 1 (int n - eliminateCount eliminatePercent n u))) currentEntries
              in Edit_round_preview (r + 1) (u + 1) (length previewEntries)) [0..<updates];
          eliminated = drop (keepCount n eliminatePercent) currentEntries;
          kept = take (keepCount n eliminatePercent) currentEntries
      in (kept, previews @ [Send_round_result (r + 1) (length eliminated) (length kept)]))"

fun play_rounds :: "nat \<Rightarrow> rat list \<Rightarrow> 'a list \<Rightarrow> 'a list \<times> event list" where
  "play_rounds r [] currentEntries = (currentEntries, [])"
| "play_rounds r (p # ps) currentEntries =
     (let (kept, log1) = play_round r p currentEntries;
          (final, log2) = play_rounds (r + 1) ps kept
      in (final, log1 @ log2))"

section \<open>The final round\<close>

definition toEliminate :: "nat \<Rightarrow> int" where
  \<comment> \<open>\<^verbatim>\<open>Math.max(1, Math.floor(currentEntries.length * 0.12))\<close>\<close>
  "toEliminate n = max 1 (floor (fl (rat_of_nat n * fl (12 / 100))))"

definition elimCountNow :: "nat \<Rightarrow> nat \<Rightarrow> int" where
  \<comment> \<open>\<^verbatim>\<open>Math.min(currentEntries.length - 1, Math.floor(toEliminate * frac))\<close>\<close>
  "elimCountNow n u = min (int n - 1) (floor (fl (rat_of_int (toEliminate n) * frac u)))"

definition final_keepCount :: "nat \<Rightarrow> nat" where
  \<comment> \<open>\<^verbatim>\<open>Math.max(1, currentEntries.length - toEliminate)\<close>\<close>
  "final_keepCount n = nat (max 1 (int n - toEliminate n))"

definition final_previews :: "nat \<Rightarrow> 'a list \<Rightarrow> event list" where
  "final_previews stage currentEntries =
     map (\<lambda>u.
        let n = length currentEntries;
            previewEntries = take (nat (max 1 (int n - elimCountNow n u))) currentEntries
        in Edit_final_preview stage (length previewEntries)) [0..<updates]"

function final_round :: "nat \<Rightarrow> 'a list \<Rightarrow> 'a list \<times> event list" where
  \<comment> \<open>\<^verbatim>\<open>while (currentEntries.length > 1)\<close>, with \<^verbatim>\<open>finalRoundCount\<close> as first argument\<close>
  "final_round finalRoundCount currentEntries =
     (if 1 < length currentEntries
      then (case final_round (finalRoundCount + 1)
                   (take (final_keepCount (length currentEntries)) currentEntries) of
              (final, evs) \<Rightarrow>
                (final, final_previews (finalRoundCount + 1) currentEntries @ evs))
      else (currentEntries, []))"
  by pat_completeness auto
termination
proof (relation "measure (\<lambda>(c, xs). length xs)")
  show "wf (measure (\<lambda>(c, xs::'a list). length xs))" by simp
next
  fix finalRoundCount :: nat and currentEntries :: "'a list"
  assume "1 < length currentEntries"
  moreover have "1 \<le> toEliminate (length currentEntries)" by (simp add: toEliminate_def)
  ultimately have "final_keepCount (length currentEntries) < length currentEntries"
    by (simp add: final_keepCount_def)
  then show "((finalRoundCount + 1, take (final_keepCount (length currentEntries)) currentEntries),
              (finalRoundCount, currentEntries)) \<in> measure (\<lambda>(c, xs). length xs)"
    by simp
qed

declare final_round.simps [simp del]

section \<open>\<^verbatim>\<open>runBattleRoyale\<close>\<close>

datatype run_error =
    Giveaway_not_found
  | Seeds_missing
  | Channel_not_found
  | Giveaway_message_not_found
  | Type_error
  | Platform_error event
  | Write_failed

text \<open>
  What the world outside the program answers during one run: whether the two fetches at
  the start deliver the channel and the giveaway message; for each message, whether the
  \<^verbatim>\<open>EmbedBuilder\<close> calls that build it return (the library validates what it is given, the
  length of a field among other things) and whether the platform accepts the \<^verbatim>\<open>send\<close>; and
  whether \<^verbatim>\<open>persistGiveaway\<close> can write the data file.
\<close>

record platform =
  channel_found :: bool
  message_found :: bool
  builds :: "event \<Rightarrow> bool"
  delivers :: "event \<Rightarrow> bool"
  persists :: bool

text \<open>
  Which messages end the run with an exception. The two plain announcements are sent by an
  \<^verbatim>\<open>await channel.send\<close> outside any \<^verbatim>\<open>try\<close>. The embeds of the previews and of the round
  results are built outside \<^verbatim>\<open>try\<close>; only the \<^verbatim>\<open>edit\<close> or \<^verbatim>\<open>send\<close> that follows is inside one, and
  its failure is logged. The winner announcement is built and sent outside \<^verbatim>\<open>try\<close>. The
  last edit is built and sent inside \<^verbatim>\<open>try\<close>.
\<close>

fun thrown :: "platform \<Rightarrow> event \<Rightarrow> bool" where
  "thrown env Send_no_entries = (\<not> delivers env Send_no_entries)"
| "thrown env (Send_start n) = (\<not> delivers env (Send_start n))"
| "thrown env (Edit_round_preview r u k) = (\<not> builds env (Edit_round_preview r u k))"
| "thrown env (Send_round_result r e k) = (\<not> builds env (Send_round_result r e k))"
| "thrown env (Edit_final_preview s k) = (\<not> builds env (Edit_final_preview s k))"
| "thrown env (Send_winner w) = (\<not> builds env (Send_winner w) \<or> \<not> delivers env (Send_winner w))"
| "thrown env (Edit_ended w) = False"

definition falsy :: "string option \<Rightarrow> bool" where
  \<comment> \<open>\<^verbatim>\<open>!s\<close> for a value that is \<^verbatim>\<open>null\<close> or a string\<close>
  "falsy s = (case s of None \<Rightarrow> True | Some x \<Rightarrow> x = [])"

definition final_row :: "nat \<times> entry \<Rightarrow> string \<times> string \<times> rat option" where
  \<comment> \<open>\<^verbatim>\<open>e => ({ id: e.id, userId: e.userId, pfFloat: e.pfFloat })\<close>\<close>
  "final_row ie = (entry_id (snd ie), userId (snd ie), pfFloat (snd ie))"

text \<open>
  The run with nothing else happening at its \<^verbatim>\<open>await\<close>s. An exception leaves the function
  with the giveaways as they are by then (\<open>Inl\<close>): unchanged before the scoring, with the
  scored rows after it, and with winner and final ranking once these are assigned. The
  rounds compute on the sorted array only, so their messages are listed first and the
  first one that throws, if any, ends the run.
\<close>

definition runBattleRoyale ::
  "hmac \<Rightarrow> platform \<Rightarrow> (string \<rightharpoonup> giveaway) \<Rightarrow> string
     \<Rightarrow> (run_error \<times> (string \<rightharpoonup> giveaway)) + ((string \<rightharpoonup> giveaway) \<times> event list)" where
  "runBattleRoyale H env GW gwId =
     (case GW gwId of
        None \<Rightarrow> Inl (Giveaway_not_found, GW)
      | Some gw \<Rightarrow>
          if falsy (clientSeed1 gw) \<or> falsy (clientSeed2 gw) then Inl (Seeds_missing, GW)
          else if \<not> channel_found env then Inl (Channel_not_found, GW)
          else if \<not> message_found env then Inl (Giveaway_message_not_found, GW)
          else if length (entries gw) = 0
          then (if thrown env Send_no_entries then Inl (Platform_error Send_no_entries, GW)
                else Inr (GW, [Send_no_entries]))
          else
            (let scored = assign_floats H (serverSeed gw)
                            (the (clientSeed1 gw)) (the (clientSeed2 gw)) (entries gw);
                 sorted = sort_desc (enumerate 0 scored);
                 (after3, log3) = play_rounds 0 rounds sorted;
                 (final, log4) = final_round 0 after3;
                 progress = [Send_start (length sorted)] @ log3 @ log4
             in case find (thrown env) progress of
                  Some ev \<Rightarrow> Inl (Platform_error ev, GW(gwId \<mapsto> gw\<lparr>entries := scored\<rparr>))
                | None \<Rightarrow>
                   (case final of
                      [] \<Rightarrow> Inl (Type_error, GW(gwId \<mapsto> gw\<lparr>entries := scored\<rparr>))
                    | winnerEntry # rest \<Rightarrow>
                       (let GW' = GW(gwId \<mapsto> gw\<lparr>entries := scored,
                                                    winner := Some (snd winnerEntry),
                                                    finalFloats := Some (map final_row sorted)\<rparr>)
                        in if \<not> persists env then Inl (Write_failed, GW')
                           else if thrown env (Send_winner (snd winnerEntry))
                           then Inl (Platform_error (Send_winner (snd winnerEntry)), GW')
                           else Inr (GW', progress
                                  @ [Send_winner (snd winnerEntry), Edit_ended (snd winnerEntry)])))))"

text \<open>
  \<^verbatim>\<open>runBattleRoyale\<close> is an \<^verbatim>\<open>async\<close> function: at each \<^verbatim>\<open>await\<close> other handlers may run, the
  join queue and other runs among them, and they work on the same giveaway object and the
  same row objects. The stretches of the run between which this can happen are:
  \<open>run_check\<close>, the lookup and the test of the seeds before the first \<^verbatim>\<open>await\<close>; \<open>run_begin\<close>,
  from the answer of the second fetch to the announcement of the start, that is, the
  snapshot \<^verbatim>\<open>gw.entries.slice()\<close>, the scoring, which writes \<^verbatim>\<open>pfFloat\<close> into the rows of the
  ledger, and the sort; \<open>run_eliminate\<close>, the rounds, which compute on the sorted array and
  do not touch the giveaway; and \<open>run_finish\<close>, the assignments to \<^verbatim>\<open>gw.winner\<close> and
  \<^verbatim>\<open>gw.finalFloats\<close>, which read the rows as they are by then. The sorted array holds the row
  objects of the ledger; the model holds their ledger indices instead and reads the rows
  from the giveaway. The ledger is only ever appended to, so an index keeps its row.
  \<^verbatim>\<open>runBattleRoyale\<close> is only called with a key under which the modal handler has found a
  giveaway, and no giveaway is removed or replaced under such a key, so the object \<^verbatim>\<open>gw\<close> of
  the run is the giveaway under the key throughout.
\<close>

record run_state =
  rs_sorted :: "nat list"
  rs_current :: "nat list"

definition run_check :: "(string \<rightharpoonup> giveaway) \<Rightarrow> string \<Rightarrow> run_error option" where
  "run_check GW gwId =
     (case GW gwId of
        None \<Rightarrow> Some Giveaway_not_found
      | Some gw \<Rightarrow>
          if falsy (clientSeed1 gw) \<or> falsy (clientSeed2 gw) then Some Seeds_missing else None)"

definition seed_text :: "string option \<Rightarrow> string" where
  \<comment> \<open>\<^verbatim>\<open>${gw.clientSeed1}\<close> in a template literal\<close>
  "seed_text s = (case s of None \<Rightarrow> ''null'' | Some x \<Rightarrow> x)"

definition run_begin ::
  "hmac \<Rightarrow> platform \<Rightarrow> (string \<rightharpoonup> giveaway) \<Rightarrow> string
     \<Rightarrow> (run_error \<times> (string \<rightharpoonup> giveaway))
         + ((string \<rightharpoonup> giveaway) \<times> run_state option \<times> event list)" where
  "run_begin H env GW gwId =
     (case GW gwId of
        None \<Rightarrow> Inl (Giveaway_not_found, GW)
      | Some gw \<Rightarrow>
          if \<not> channel_found env then Inl (Channel_not_found, GW)
          else if \<not> message_found env then Inl (Giveaway_message_not_found, GW)
          else if length (entries gw) = 0
          then (if thrown env Send_no_entries then Inl (Platform_error Send_no_entries, GW)
                else Inr (GW, None, [Send_no_entries]))
          else
            (let scored = assign_floats H (serverSeed gw)
                            (seed_text (clientSeed1 gw)) (seed_text (clientSeed2 gw)) (entries gw);
                 sorted = map fst (sort_desc (enumerate 0 scored));
                 GW' = GW(gwId \<mapsto> gw\<lparr>entries := scored\<rparr>)
             in if thrown env (Send_start (length sorted))
                then Inl (Platform_error (Send_start (length sorted)), GW')
                else Inr (GW', Some \<lparr>rs_sorted = sorted, rs_current = sorted\<rparr>,
                          [Send_start (length sorted)])))"

definition run_eliminate :: "platform \<Rightarrow> run_state \<Rightarrow> run_error + (run_state \<times> event list)" where
  "run_eliminate env rs =
     (let (after3, log3) = play_rounds 0 rounds (rs_current rs);
          (final, log4) = final_round 0 after3
      in case find (thrown env) (log3 @ log4) of
           Some ev \<Rightarrow> Inl (Platform_error ev)
         | None \<Rightarrow> Inr (rs\<lparr>rs_current := final\<rparr>, log3 @ log4))"

definition row_at :: "entry list \<Rightarrow> nat \<Rightarrow> entry option" where
  "row_at es i = (if i < length es then Some (es ! i) else None)"

definition run_finish ::
  "platform \<Rightarrow> run_state \<Rightarrow> (string \<rightharpoonup> giveaway) \<Rightarrow> string
     \<Rightarrow> (run_error \<times> (string \<rightharpoonup> giveaway)) + ((string \<rightharpoonup> giveaway) \<times> event list)" where
  "run_finish env rs GW gwId =
     (case GW gwId of
        None \<Rightarrow> Inl (Giveaway_not_found, GW)
      | Some gw \<Rightarrow>
          (case rs_current rs of
             [] \<Rightarrow> Inl (Type_error, GW)
           | w # rest \<Rightarrow>
              (case row_at (entries gw) w of
                 None \<Rightarrow> Inl (Type_error, GW)
               | Some winnerEntry \<Rightarrow>
                  (let GW' = GW(gwId \<mapsto> gw\<lparr>winner := Some winnerEntry,
                        finalFloats := Some (map final_row
                           (List.map_filter (\<lambda>i. map_option (Pair i) (row_at (entries gw) i))
                              (rs_sorted rs)))\<rparr>)
                   in if \<not> persists env then Inl (Write_failed, GW')
                      else if thrown env (Send_winner winnerEntry)
                      then Inl (Platform_error (Send_winner winnerEntry), GW')
                      else Inr (GW', [Send_winner winnerEntry, Edit_ended winnerEntry])))))"

section \<open>The bot: giveaways, buttons, the queue, the timer, the seeds\<close>

text \<open>
  \<^verbatim>\<open>$start\<close> stores a new giveaway under the id \<^verbatim>\<open>`gw_${Date.now()}`\<close> and gives its two buttons
  the custom ids \<^verbatim>\<open>`join_${gwId}`\<close> and \<^verbatim>\<open>`verify_${gwId}`\<close>. The handlers of the buttons and of
  the modal look the giveaway up under \<^verbatim>\<open>customId.split('_')[1]\<close>, the text between the first
  and the second underscore of the custom id.
\<close>

fun split_on :: "char \<Rightarrow> string \<Rightarrow> string list" where
  \<comment> \<open>\<^verbatim>\<open>s.split(c)\<close> for a separator of one character\<close>
  "split_on c [] = [[]]"
| "split_on c (x # xs) =
     (if x = c then [] # split_on c xs
      else (case split_on c xs of
              [] \<Rightarrow> [[x]]
            | y # ys \<Rightarrow> (x # y) # ys))"

definition giveaway_key :: "string \<Rightarrow> string" where
  \<comment> \<open>\<^verbatim>\<open>customId.split('_')[1]\<close>; a missing element is \<^verbatim>\<open>undefined\<close>, as a key the string of that name\<close>
  "giveaway_key customId =
     (case split_on CHR ''_'' customId of
        a # k # rest \<Rightarrow> k
      | other \<Rightarrow> ''undefined'')"

definition starts_with :: "string \<Rightarrow> string \<Rightarrow> bool" where
  \<comment> \<open>\<^verbatim>\<open>s.startsWith(p)\<close>\<close>
  "starts_with p s = (take (length p) s = p)"

definition start_id :: "nat \<Rightarrow> string" where
  \<comment> \<open>\<^verbatim>\<open>`gw_${Date.now()}`\<close> at time \<open>t\<close>\<close>
  "start_id t = ''gw_'' @ decimal t"

text \<open>
  \<open>queue\<close> holds the join tasks that have been pushed and have not yet changed the giveaway,
  each with the key under which its giveaway was found, the one that \<^verbatim>\<open>startProcessing\<close> has
  already shifted and is waiting for its member fetch included. \<open>timers\<close> are the ids whose
  \<^verbatim>\<open>setInterval\<close> is running. \<open>runs\<close> are the calls of \<^verbatim>\<open>runBattleRoyale\<close> in progress, each with
  its key and the \<^verbatim>\<open>await\<close> at which it stands: \<open>Replying\<close>, the modal handler waits for its
  reply to be sent and has not called the run yet; \<open>Fetching\<close>, the run has tested the seeds
  and waits for channel and message; \<open>Rounds\<close>, it has scored and sorted the rows.
\<close>

datatype run_stage = Replying | Fetching | Rounds run_state

record bot =
  GIVEAWAYS :: "string \<rightharpoonup> giveaway"
  queue :: "(string \<times> interaction) list"
  timers :: "string list"
  runs :: "(string \<times> run_stage) list"

datatype reply =
    Giveaway_not_found_reply
  | Collection_already_ended
  | You_joined nat
  | Show_modal string
  | Seeds_received

definition collect_seconds :: "setup_cfg \<Rightarrow> int" where
  \<comment> \<open>\<^verbatim>\<open>parseInt(setup.collectDuration || 30)\<close>\<close>
  "collect_seconds s = (case collectDuration s of
                          None \<Rightarrow> 30
                        | Some d \<Rightarrow> if d = 0 then 30 else parseInt_num d)"

text \<open>
  The giveaway object that \<^verbatim>\<open>$start\<close> creates. \<open>t0\<close>, \<open>t1\<close> and \<open>t2\<close> are the values of its three
  calls of \<^verbatim>\<open>Date.now()\<close>.
\<close>

definition start_giveaway :: "setup_cfg \<Rightarrow> string \<Rightarrow> nat \<Rightarrow> nat \<Rightarrow> nat \<Rightarrow> giveaway" where
  "start_giveaway s sSeed t0 t1 t2 =
     \<lparr>gw_id = start_id t0, gw_setup = s, entries = [], entrantsByUser = Map.empty,
      collecting = True, startAt = int t1, endAt = int t2 + collect_seconds s * 1000,
      clientSeed1 = None, clientSeed2 = None, serverSeed = sSeed,
      finalFloats = None, winner = None\<rparr>"

definition start_cmd :: "setup_cfg \<Rightarrow> string \<Rightarrow> nat \<Rightarrow> nat \<Rightarrow> nat \<Rightarrow> bool \<Rightarrow> bot \<Rightarrow> bot" where
  \<comment> \<open>\<^verbatim>\<open>$start\<close> for a setup that exists; \<open>posted\<close>: the file is written and the message is sent,
      after which the interval is set\<close>
  "start_cmd s sSeed t0 t1 t2 posted b =
     b\<lparr>GIVEAWAYS := (GIVEAWAYS b)(start_id t0 \<mapsto> start_giveaway s sSeed t0 t1 t2),
       timers := (if posted then timers b @ [start_id t0] else timers b)\<rparr>"

definition update_tick :: "int \<Rightarrow> string \<Rightarrow> bot \<Rightarrow> bot" where
  \<comment> \<open>the state change of the one-second \<^verbatim>\<open>setInterval\<close> callback of \<open>gwId\<close> at time \<open>now\<close>\<close>
  "update_tick now gwId b =
     (case GIVEAWAYS b gwId of
        None \<Rightarrow> b\<lparr>timers := remove1 gwId (timers b)\<rparr>
      | Some g \<Rightarrow>
          if collecting g \<and> endAt g \<le> now
          then b\<lparr>GIVEAWAYS := (GIVEAWAYS b)(gwId \<mapsto> g\<lparr>collecting := False\<rparr>)\<rparr>
          else b)"

definition join_button :: "string \<Rightarrow> interaction \<Rightarrow> bot \<Rightarrow> bot \<times> reply option" where
  \<comment> \<open>the \<^verbatim>\<open>join_\<close> branch of \<^verbatim>\<open>interactionCreate\<close>: the lookup, two checks, then \<^verbatim>\<open>joinQueue.push\<close>\<close>
  "join_button customId i b =
     (let gwId = giveaway_key customId
      in case GIVEAWAYS b gwId of
           None \<Rightarrow> (b, Some Giveaway_not_found_reply)
         | Some gw \<Rightarrow>
             if \<not> collecting gw then (b, Some Collection_already_ended)
             else (b\<lparr>queue := queue b @ [(gwId, i)]\<rparr>, None))"

definition verify_button :: "string \<Rightarrow> bot \<Rightarrow> reply option" where
  \<comment> \<open>the \<^verbatim>\<open>verify_\<close> branch: the modal it shows has the custom id \<^verbatim>\<open>`seeds_${gwId}`\<close>\<close>
  "verify_button customId b =
     (let gwId = giveaway_key customId
      in case GIVEAWAYS b gwId of
           None \<Rightarrow> Some Giveaway_not_found_reply
         | Some gw \<Rightarrow> Some (Show_modal (''seeds_'' @ gwId)))"

definition on_button :: "string \<Rightarrow> interaction \<Rightarrow> bot \<Rightarrow> bot \<times> reply option" where
  "on_button customId i b =
     (if starts_with ''join_'' customId then join_button customId i b
      else if starts_with ''verify_'' customId then (b, verify_button customId b)
      else (b, None))"

definition process_next :: "(nat \<Rightarrow> string) \<Rightarrow> bool \<Rightarrow> bot \<Rightarrow> bot \<times> reply option" where
  \<comment> \<open>the task at the head of the queue, from the answer of its member fetch on; \<open>written\<close>: the
      file write after the rows are appended succeeds, without which no reply is sent\<close>
  "process_next fresh written b =
     (case queue b of
        [] \<Rightarrow> (b, None)
      | (gwId, i) # rest \<Rightarrow>
          (case GIVEAWAYS b gwId of
             None \<Rightarrow> (b\<lparr>queue := rest\<rparr>, None)
           | Some gw \<Rightarrow>
               (let (gw', n) = join_task fresh i gw
                in (b\<lparr>GIVEAWAYS := (GIVEAWAYS b)(gwId \<mapsto> gw'), queue := rest\<rparr>,
                    if written then Some (You_joined n) else None))))"

text \<open>
  \<^verbatim>\<open>String.prototype.trim\<close> removes white space and line terminators from both ends. Of the
  code units below 256 these are the following seven.
\<close>

definition is_space :: "char \<Rightarrow> bool" where
  "is_space c =
     (c \<in> set [CHR 0x09, CHR 0x0A, CHR 0x0B, CHR 0x0C, CHR 0x0D, CHR 0x20, CHR 0xA0])"

definition trim :: "string \<Rightarrow> string" where
  "trim s = rev (dropWhile is_space (rev (dropWhile is_space s)))"

text \<open>
  The modal submit \<^verbatim>\<open>seeds_\<close>: both seeds are stored, the file is written, the reply is sent,
  and then \<^verbatim>\<open>runBattleRoyale\<close> is called without \<^verbatim>\<open>await\<close>. An exception of the write or of the
  reply is caught by the handler, and the run is not called. \<open>seeds_modal\<close> is the handler up
  to and including the write.
\<close>

definition seeds_modal :: "string \<Rightarrow> string \<Rightarrow> string \<Rightarrow> bool \<Rightarrow> bot \<Rightarrow> bot \<times> reply option" where
  "seeds_modal customId input1 input2 written b =
     (let gwId = giveaway_key customId
      in case GIVEAWAYS b gwId of
           None \<Rightarrow> (b, Some Giveaway_not_found_reply)
         | Some gw \<Rightarrow>
             (let cs1 = trim input1;
                  cs2 = trim input2;
                  GW' = (GIVEAWAYS b)(gwId \<mapsto> gw\<lparr>clientSeed1 := Some cs1, clientSeed2 := Some cs2\<rparr>)
              in if written
                 then (b\<lparr>GIVEAWAYS := GW', runs := runs b @ [(gwId, Replying)]\<rparr>, Some Seeds_received)
                 else (b\<lparr>GIVEAWAYS := GW'\<rparr>, None)))"

definition on_modal :: "string \<Rightarrow> string \<Rightarrow> string \<Rightarrow> bool \<Rightarrow> bot \<Rightarrow> bot \<times> reply option" where
  "on_modal customId input1 input2 written b =
     (if starts_with ''seeds_'' customId then seeds_modal customId input1 input2 written b
      else (b, None))"

text \<open>
  The three stretches of a run in progress, as steps of the bot. \<open>xs\<close> and \<open>ys\<close> are the
  other runs in progress.
\<close>

definition run_call_step ::
  "bool \<Rightarrow> string \<Rightarrow> (string \<times> run_stage) list \<Rightarrow> (string \<times> run_stage) list \<Rightarrow> bot \<Rightarrow> bot" where
  \<comment> \<open>\<open>replied\<close>: the reply of the modal handler has been sent; then the run is called\<close>
  "run_call_step replied k xs ys b =
     (if replied \<and> run_check (GIVEAWAYS b) k = None
      then b\<lparr>runs := xs @ (k, Fetching) # ys\<rparr>
      else b\<lparr>runs := xs @ ys\<rparr>)"

definition run_begin_step ::
  "hmac \<Rightarrow> platform \<Rightarrow> string \<Rightarrow> (string \<times> run_stage) list \<Rightarrow> (string \<times> run_stage) list
     \<Rightarrow> bot \<Rightarrow> bot" where
  "run_begin_step H env k xs ys b =
     (case run_begin H env (GIVEAWAYS b) k of
        Inl (err, GW') \<Rightarrow> b\<lparr>GIVEAWAYS := GW', runs := xs @ ys\<rparr>
      | Inr (GW', None, evs) \<Rightarrow> b\<lparr>GIVEAWAYS := GW', runs := xs @ ys\<rparr>
      | Inr (GW', Some rs, evs) \<Rightarrow> b\<lparr>GIVEAWAYS := GW', runs := xs @ (k, Rounds rs) # ys\<rparr>)"

definition run_end_step ::
  "platform \<Rightarrow> string \<Rightarrow> run_state \<Rightarrow> (string \<times> run_stage) list \<Rightarrow> (string \<times> run_stage) list
     \<Rightarrow> bot \<Rightarrow> bot" where
  \<comment> \<open>the rounds, which do not touch the giveaways, and the assignments that follow them\<close>
  "run_end_step env k rs xs ys b =
     (case run_eliminate env rs of
        Inl err \<Rightarrow> b\<lparr>runs := xs @ ys\<rparr>
      | Inr (rs', evs) \<Rightarrow>
          (case run_finish env rs' (GIVEAWAYS b) k of
             Inl (err, GW') \<Rightarrow> b\<lparr>GIVEAWAYS := GW', runs := xs @ ys\<rparr>
           | Inr (GW', evs') \<Rightarrow> b\<lparr>GIVEAWAYS := GW', runs := xs @ ys\<rparr>))"

text \<open>
  One step of the bot is one handler, or one stretch of a handler between two \<^verbatim>\<open>await\<close>s.
  The custom id of a button click is the one of a button that some \<^verbatim>\<open>$start\<close> has posted,
  in this or in an earlier life of the process, and the custom id of a modal is the one
  that the \<^verbatim>\<open>verify_\<close> branch gave it. The process starts with the giveaways of the data
  file and with no task, timer or run.
\<close>

inductive step :: "hmac \<Rightarrow> bot \<Rightarrow> bot \<Rightarrow> bool" for H :: hmac where
  step_start: "step H b (start_cmd s sSeed t0 t1 t2 posted b)"
| step_tick: "gwId \<in> set (timers b) \<Longrightarrow> step H b (update_tick now gwId b)"
| step_join: "step H b (fst (on_button (''join_'' @ start_id t) i b))"
| step_process: "step H b (fst (process_next fresh written b))"
| step_seeds: "verify_button (''verify_'' @ start_id t) b = Some (Show_modal customId)
           \<Longrightarrow> step H b (fst (on_modal customId input1 input2 written b))"
| step_call: "runs b = xs @ (k, Replying) # ys \<Longrightarrow> step H b (run_call_step replied k xs ys b)"
| step_begin: "runs b = xs @ (k, Fetching) # ys \<Longrightarrow> step H b (run_begin_step H env k xs ys b)"
| step_end: "runs b = xs @ (k, Rounds rs) # ys \<Longrightarrow> step H b (run_end_step env k rs xs ys b)"

inductive reachable :: "hmac \<Rightarrow> bot \<Rightarrow> bool" for H :: hmac where
  reachable_init: "queue b = [] \<Longrightarrow> timers b = [] \<Longrightarrow> runs b = [] \<Longrightarrow> reachable H b"
| reachable_step: "reachable H b \<Longrightarrow> step H b b' \<Longrightarrow> reachable H b'"

section \<open>Notions used to state the properties\<close>

definition ranking :: "hmac \<Rightarrow> string \<Rightarrow> string \<Rightarrow> string \<Rightarrow> entry list \<Rightarrow> (nat \<times> entry) list" where
  \<comment> \<open>the array \<^verbatim>\<open>entries\<close> of \<^verbatim>\<open>runBattleRoyale\<close> after the sort, each row with its ledger index\<close>
  "ranking H sSeed cs1 cs2 es = sort_desc (enumerate 0 (assign_floats H sSeed cs1 cs2 es))"

definition fairness :: "nat \<times> entry \<Rightarrow> rat" where
  "fairness ie = (case pfFloat (snd ie) of None \<Rightarrow> 0 | Some v \<Rightarrow> v)"

definition ranks_before :: "nat \<times> entry \<Rightarrow> nat \<times> entry \<Rightarrow> bool" where
  \<comment> \<open>higher fairness value first; among equal values, lower ledger index first\<close>
  "ranks_before a b \<longleftrightarrow> fairness b < fairness a \<or> (fairness a = fairness b \<and> fst a < fst b)"

fun select_top :: "(nat \<times> entry) list \<Rightarrow> (nat \<times> entry) option" where
  \<comment> \<open>the row of maximal fairness value, the earliest one among equals\<close>
  "select_top [] = None"
| "select_top (x # xs) =
     (case select_top xs of
        None \<Rightarrow> Some x
      | Some b \<Rightarrow> if fairness b \<le> fairness x then Some x else Some b)"


definition run_progress :: "(nat \<times> entry) list \<Rightarrow> event list" where
  \<comment> \<open>the messages of a run over the ranking \<open>r\<close> up to the end of the final round\<close>
  "run_progress r =
     [Send_start (length r)] @ snd (play_rounds 0 rounds r)
       @ snd (final_round 0 (fst (play_rounds 0 rounds r)))"

definition run_events :: "(nat \<times> entry) list \<Rightarrow> event list" where
  \<comment> \<open>the messages of a run over the ranking \<open>r\<close>, in the order in which it sends them\<close>
  "run_events r =
     [Send_start (length r)] @ snd (play_rounds 0 rounds r)
       @ snd (final_round 0 (fst (play_rounds 0 rounds r)))
       @ [Send_winner (snd (hd r)), Edit_ended (snd (hd r))]"

text \<open>
  A decimal numeral, read back: a non-empty string of the digits 0 to 9 without a leading
  zero, except for the numeral of zero itself.
\<close>

definition digit_of :: "char \<Rightarrow> nat option" where
  "digit_of c = (let k = of_char c :: nat in if 48 \<le> k \<and> k \<le> 57 then Some (k - 48) else None)"

fun read_digits :: "nat \<Rightarrow> string \<Rightarrow> nat option" where
  "read_digits acc [] = Some acc"
| "read_digits acc (c # cs) =
     (case digit_of c of None \<Rightarrow> None | Some d \<Rightarrow> read_digits (10 * acc + d) cs)"

definition read_decimal :: "string \<Rightarrow> nat option" where
  "read_decimal s =
     (if s = [] \<or> (1 < length s \<and> hd s = CHR ''0'') then None else read_digits 0 s)"

text \<open>
  The configured counts that the role loop takes into account for a member with the roles
  \<open>roles\<close>: those of the elements before the first \<^verbatim>\<open>null\<close> that have a role id which the
  member holds and a count that is present and not zero.
\<close>

definition matching_counts :: "string list \<Rightarrow> role_entry option list \<Rightarrow> int list" where
  "matching_counts roles res =
     concat (map (\<lambda>re. if roleId re \<noteq> [] \<and> roleId re \<in> set roles
                         then (case role_entries re of
                                 None \<Rightarrow> []
                               | Some k \<Rightarrow> if k = 0 then [] else [sint k])
                         else [])
               (map the (takeWhile (\<lambda>x. x \<noteq> None) res)))"

text \<open>
  The number of entries for a join as the specification words it: the maximum of
  \<open>baseEntries\<close> and the configured entries of the matching roles, with \<open>baseEntries\<close> taken
  as 1 when the setup has none.
\<close>

definition specified_grant :: "setup_cfg \<Rightarrow> string list \<Rightarrow> int" where
  "specified_grant s roles =
     Max (set ((case baseEntries s of None \<Rightarrow> 1 | Some b \<Rightarrow> sint b)
               # (case roleEntries s of
                    None \<Rightarrow> []
                  | Some res \<Rightarrow>
                      concat (map (\<lambda>re. case re of
                                     None \<Rightarrow> []
                                   | Some r \<Rightarrow>
                                       if roleId r \<in> set roles
                                       then (case role_entries r of None \<Rightarrow> [] | Some k \<Rightarrow> [sint k])
                                       else []) res))))"

definition row_ident :: "entry \<Rightarrow> string \<times> string \<times> string" where
  \<comment> \<open>what a row is apart from its fairness value\<close>
  "row_ident e = (entry_id e, userId e, username e)"

text \<open>
  A stand-in for the HMAC in worked examples: the digest \<open>2\<^sup>5\<^sup>1\<^sup>1\<close> (fairness value
  \<open>1/2\<close>) or 0, according to the parity of the length of the message plus its last character.
\<close>

definition toyH :: hmac where
  "toyH key msg = (if even (length msg + of_char (last msg)) then 0 else 2 ^ 511)"

section \<open>Worked examples\<close>

text \<open>
  The setup of the specification's scenario (base count 1, role \<open>vip\<close> worth 5 entries), the
  members Alice (vip), Bob and Carol (no role), and an environment in which every fetch,
  message and file write succeeds. Every button that \<^verbatim>\<open>$start\<close> posts leads to the key \<open>gw\<close>, so
  the giveaways of the examples are giveaways of the data file under that key.
\<close>

definition demo_roles :: "role_entry option list" where
  "demo_roles = [Some \<lparr>roleId = ''vip'', role_entries = Some 5\<rparr>]"

definition demo_setup :: setup_cfg where
  "demo_setup = \<lparr>setup_name = ''demo'', collectDuration = Some 30, baseEntries = Some 1,
                  roleEntries = Some demo_roles\<rparr>"

definition alice :: interaction where
  "alice = \<lparr>user_id = ''alice'', user_name = ''Alice'', member_roles = Some [''vip'']\<rparr>"

definition bob :: interaction where
  "bob = \<lparr>user_id = ''bob'', user_name = ''Bob'', member_roles = Some []\<rparr>"

definition carol :: interaction where
  "carol = \<lparr>user_id = ''carol'', user_name = ''Carol'', member_roles = Some []\<rparr>"

definition demo_ids :: "nat \<Rightarrow> string" where
  "demo_ids k = ''e_'' @ decimal k"

definition demo_env :: platform where
  "demo_env = \<lparr>channel_found = True, message_found = True,
                builds = (\<lambda>ev. True), delivers = (\<lambda>ev. True), persists = True\<rparr>"

definition two_entries :: "entry list" where
  "two_entries =
     [\<lparr>entry_id = ''e_0'', userId = ''alice'', username = ''Alice'', pfFloat = None\<rparr>,
      \<lparr>entry_id = ''e_1'', userId = ''bob'', username = ''Bob'', pfFloat = None\<rparr>]"

definition demo_open :: giveaway where
  "demo_open = \<lparr>gw_id = ''gw'', gw_setup = demo_setup, entries = two_entries,
                 entrantsByUser = [''alice'' \<mapsto> 1, ''bob'' \<mapsto> 1], collecting = True,
                 startAt = 0, endAt = 30000, clientSeed1 = None, clientSeed2 = None,
                 serverSeed = ''server seed'', finalFloats = None, winner = None\<rparr>"

definition demo_locked :: giveaway where
  "demo_locked = demo_open\<lparr>collecting := False\<rparr>"

definition demo_seeded :: giveaway where
  "demo_seeded = demo_locked\<lparr>clientSeed1 := Some ''a'', clientSeed2 := Some ''b''\<rparr>"

definition demo_store2 :: "string \<rightharpoonup> giveaway" where
  "demo_store2 = [''gw'' \<mapsto> demo_seeded]"

text \<open>
  A setup with a base count of 2 and five role elements: \<open>vip\<close> worth 5 entries, an element
  without role id, a role \<open>mod\<close> without a count, a \<^verbatim>\<open>null\<close>, and \<open>gold\<close> worth 9 entries behind
  it; Dana holds \<open>gold\<close>, and the member of Erin cannot be fetched. A setup with the base
  count \<open>-2\<close>. For each of the two, a giveaway of the data file without entries.
\<close>

definition tiered_roles :: "role_entry option list" where
  "tiered_roles = [Some \<lparr>roleId = ''vip'', role_entries = Some 5\<rparr>,
                   Some \<lparr>roleId = [], role_entries = Some 50\<rparr>,
                   Some \<lparr>roleId = ''mod'', role_entries = None\<rparr>,
                   None,
                   Some \<lparr>roleId = ''gold'', role_entries = Some 9\<rparr>]"

definition tiered_setup :: setup_cfg where
  "tiered_setup = \<lparr>setup_name = ''tiered'', collectDuration = None, baseEntries = Some 2,
                    roleEntries = Some tiered_roles\<rparr>"

definition dana :: interaction where
  "dana = \<lparr>user_id = ''dana'', user_name = ''Dana'', member_roles = Some [''mod'', ''gold'']\<rparr>"

definition erin :: interaction where
  "erin = \<lparr>user_id = ''erin'', user_name = ''Erin'', member_roles = None\<rparr>"

definition tiered_gw :: giveaway where
  "tiered_gw = demo_open\<lparr>gw_setup := tiered_setup, entries := [], entrantsByUser := Map.empty\<rparr>"

definition negative_setup :: setup_cfg where
  "negative_setup = \<lparr>setup_name = ''negative'', collectDuration = None, baseEntries = Some (- 2),
                      roleEntries = Some []\<rparr>"

definition negative_gw :: giveaway where
  "negative_gw = demo_open\<lparr>gw_setup := negative_setup, entries := [], entrantsByUser := Map.empty\<rparr>"

definition vip_gw :: giveaway where
  "vip_gw = demo_open\<lparr>entries := [], entrantsByUser := Map.empty\<rparr>"













section \<open>Rounding to binary64\<close>

lemma bit_length_bounds_int:
  "0 < k \<Longrightarrow> 2 ^ (bit_length k - 1) \<le> k \<and> k < 2 ^ bit_length k"
proof (induction k rule: bit_length.induct)
  case (1 k)
  show ?case
  proof (cases "k div 2 \<le> 0")
    case True
    with \<open>0 < k\<close> have "k = 1" by linarith
    then show ?thesis by (simp add: bit_length.simps[of 1] bit_length.simps[of 0])
  next
    case False
    then have pos: "0 < k div 2" by simp
    with "1.IH" \<open>0 < k\<close>
    have lo: "2 ^ (bit_length (k div 2) - 1) \<le> k div 2"
      and hi: "k div 2 < 2 ^ bit_length (k div 2)" by simp_all
    have bl: "bit_length k = Suc (bit_length (k div 2))"
      using \<open>0 < k\<close> by (subst bit_length.simps) simp
    have b1: "0 < bit_length (k div 2)"
      using pos by (subst bit_length.simps) simp
    have "(2::int) ^ bit_length (k div 2) = 2 * 2 ^ (bit_length (k div 2) - 1)"
      using b1 by (cases "bit_length (k div 2)") simp_all
    with lo have "2 ^ bit_length (k div 2) \<le> 2 * (k div 2)" by simp
    also have "\<dots> \<le> k" by linarith
    finally have L: "2 ^ (bit_length k - 1) \<le> k" by (simp add: bl)
    from hi have "k div 2 + 1 \<le> 2 ^ bit_length (k div 2)" by simp
    then have "2 * (k div 2) + 2 \<le> 2 * 2 ^ bit_length (k div 2)" by simp
    moreover have "k < 2 * (k div 2) + 2" by linarith
    ultimately have "k < 2 ^ bit_length k" by (simp add: bl)
    with L show ?thesis by simp
  qed
qed

lemma int_pow2_bounds:
  assumes "0 < (k::int)"
  shows "(2::rat) ^ (bit_length k - 1) \<le> rat_of_int k" "rat_of_int k < (2::rat) ^ bit_length k"
proof -
  from bit_length_bounds_int[OF assms]
  have a: "2 ^ (bit_length k - 1) \<le> k" and b: "k < 2 ^ bit_length k" by auto
  from a have "rat_of_int (2 ^ (bit_length k - 1)) \<le> rat_of_int k" by (simp only: of_int_le_iff)
  then show "(2::rat) ^ (bit_length k - 1) \<le> rat_of_int k" by simp
  from b have "rat_of_int k < rat_of_int (2 ^ bit_length k)" by (simp only: of_int_less_iff)
  then show "rat_of_int k < (2::rat) ^ bit_length k" by simp
qed

lemma ilog2_bounds:
  assumes "0 < q"
  shows "(2::rat) powi (ilog2 q) \<le> q \<and> q < (2::rat) powi (ilog2 q + 1)"
proof -
  obtain p d where pd: "quotient_of q = (p, d)" by (cases "quotient_of q")
  have d: "0 < d" using pd quotient_of_denom_pos by blast
  have q: "q = rat_of_int p / rat_of_int d" using pd quotient_of_div by blast
  have p: "0 < p" using assms d q by (simp add: zero_less_divide_iff)
  define bp where "bp = bit_length p"
  define bd where "bd = bit_length d"
  have bp1: "1 \<le> bp" and bd1: "1 \<le> bd"
    using p d bit_length.simps[of p] bit_length.simps[of d]
    by (simp_all add: bp_def bd_def)
  have P: "(2::rat) ^ (bp - 1) \<le> rat_of_int p" "rat_of_int p < (2::rat) ^ bp"
    using int_pow2_bounds[OF p] by (simp_all add: bp_def)
  have D: "(2::rat) ^ (bd - 1) \<le> rat_of_int d" "rat_of_int d < (2::rat) ^ bd"
    using int_pow2_bounds[OF d] by (simp_all add: bd_def)
  have dpos: "0 < rat_of_int d" using d by simp
  have up: "q < (2::rat) powi (int bp - int bd + 1)"
  proof -
    have "rat_of_int p < (2::rat) ^ bp" by (rule P)
    also have "(2::rat) ^ bp = (2::rat) powi (int bp - int bd + 1) * 2 ^ (bd - 1)"
      using bd1 by (simp add: power_int_add power_int_diff of_nat_diff flip: power_int_of_nat)
    also have "\<dots> \<le> (2::rat) powi (int bp - int bd + 1) * rat_of_int d"
      using D(1) by (intro mult_left_mono) simp_all
    finally show ?thesis using dpos by (simp add: q pos_divide_less_eq)
  qed
  have lo: "(2::rat) powi (int bp - int bd - 1) < q"
  proof -
    have "(2::rat) powi (int bp - int bd - 1) * rat_of_int d < (2::rat) powi (int bp - int bd - 1) * 2 ^ bd"
      using D(2) by (intro mult_strict_left_mono) simp_all
    also have "\<dots> = (2::rat) ^ (bp - 1)"
      using bp1 by (simp add: power_int_add power_int_diff of_nat_diff flip: power_int_of_nat)
    also have "\<dots> \<le> rat_of_int p" by (rule P)
    finally show ?thesis using dpos by (simp add: q pos_less_divide_eq)
  qed
  show ?thesis
  proof (cases "(2::rat) powi (int bp - int bd) \<le> q")
    case True
    then have "ilog2 q = int bp - int bd" by (simp add: ilog2_def pd bp_def bd_def)
    with True up show ?thesis by simp
  next
    case False
    then have "ilog2 q = int bp - int bd - 1" by (simp add: ilog2_def pd bp_def bd_def)
    with False lo show ?thesis by simp
  qed
qed

lemma pow2_less_D:
  assumes "(2::rat) powi a < (2::rat) powi b"
  shows "a < b"
proof (rule ccontr)
  assume "\<not> a < b"
  then have "b \<le> a" by simp
  then have "(2::rat) powi b \<le> (2::rat) powi a" by (rule power_int_increasing) simp
  with assms show False by simp
qed

lemma ilog2_unique:
  assumes "(2::rat) powi e \<le> q" "q < (2::rat) powi (e + 1)"
  shows "ilog2 q = e"
proof -
  have "(0::rat) < 2 powi e" by (rule zero_less_power_int) simp
  then have q: "0 < q" using assms(1) by (rule less_le_trans)
  from ilog2_bounds[OF q] have a: "(2::rat) powi (ilog2 q) \<le> q" and b: "q < (2::rat) powi (ilog2 q + 1)" by auto
  have "(2::rat) powi e < (2::rat) powi (ilog2 q + 1)" using assms(1) b by simp
  then have 1: "e < ilog2 q + 1" by (rule pow2_less_D)
  have "(2::rat) powi (ilog2 q) < (2::rat) powi (e + 1)" using assms(2) a by simp
  then have 2: "ilog2 q < e + 1" by (rule pow2_less_D)
  from 1 2 show ?thesis by simp
qed

lemma round_half_even_of_int: "round_half_even (rat_of_int k) = k"
  by (simp add: round_half_even_def)

lemma round_half_even_close:
  "rat_of_int (round_half_even x) \<le> x + 1/2" "x - 1/2 \<le> rat_of_int (round_half_even x)"
  unfolding round_half_even_def Let_def
  by (auto simp: not_less) linarith+


lemma fl_exact:
  assumes "0 < v" "v < 2 ^ 53"
  shows "fl (rat_of_nat v * (2::rat) powi k) = rat_of_nat v * (2::rat) powi k"
proof -
  define q where "q = rat_of_nat v * (2::rat) powi k"
  have p2: "\<And>j. (0::rat) < 2 powi j" by (rule zero_less_power_int) simp
  have q: "0 < q" using assms(1) p2 by (simp add: q_def)
  define e where "e = ilog2 q"
  from ilog2_bounds[OF q] have lo: "(2::rat) powi e \<le> q" by (simp add: e_def)
  have "rat_of_nat v < rat_of_nat (2 ^ 53)" using assms(2) by (simp only: of_nat_less_iff)
  then have "q < (2::rat) ^ 53 * 2 powi k" using p2[of k] by (simp add: q_def)
  also have "\<dots> = (2::rat) powi (53 + k)" by (simp add: power_int_add)
  finally have "(2::rat) powi e < (2::rat) powi (53 + k)" using lo by simp
  then have "e < 53 + k" by (rule pow2_less_D)
  then have ek: "e - 52 \<le> k" by simp
  have "q / (2::rat) powi (e - 52) = rat_of_nat v * (2::rat) powi (k - (e - 52))"
    by (simp add: q_def power_int_diff)
  also have "(2::rat) powi (k - (e - 52)) = (2::rat) ^ nat (k - (e - 52))"
    using ek by (simp add: power_int_def)
  also have "rat_of_nat v * (2::rat) ^ nat (k - (e - 52)) = rat_of_int (int v * 2 ^ nat (k - (e - 52)))"
    by simp
  finally have "round_half_even (q / (2::rat) powi (e - 52)) = int v * 2 ^ nat (k - (e - 52))"
    and dv: "q / (2::rat) powi (e - 52) = rat_of_int (int v * 2 ^ nat (k - (e - 52)))"
    by (simp_all only: round_half_even_of_int)
  then have "fl q = rat_of_int (int v * 2 ^ nat (k - (e - 52))) * (2::rat) powi (e - 52)"
    using q by (simp add: fl_def e_def Let_def)
  also have "\<dots> = q" using dv p2[of "e - 52"] by (simp only: flip: dv) simp
  finally show ?thesis by (simp add: q_def)
qed

lemma fl_exact_div:
  assumes "v < 2 ^ 53"
  shows "fl (rat_of_nat v / 2 ^ 52) = rat_of_nat v / 2 ^ 52"
proof (cases "v = 0")
  case True then show ?thesis by (simp add: fl_def)
next
  case False
  then have "0 < v" by simp
  have p: "(2::rat) powi (- 52) = inverse (2 ^ 52)"
    by (simp add: power_int_def power_divide)
  from fl_exact[OF \<open>0 < v\<close> assms, of "- 52"] show ?thesis
    unfolding p divide_inverse .
qed

section \<open>The fairness value is the upper 52 bits of the digest\<close>

lemma hexval_hexdigit: "n < 16 \<Longrightarrow> hexval (hexdigit n) = Some n"
proof -
  assume "n < 16"
  then have "n \<in> set [0..<16]" by simp
  then have "n \<in> {0,1,2,3,4,5,6,7,8,9,10,11,12,13,14,15}"
    by (simp add: upt_rec numeral_eq_Suc) 
  then show ?thesis
    by (auto simp: hexval_def hexdigit_def)
qed

lemma parse_hex_digits_map:
  "\<forall>n\<in>set ns. n < 16 \<Longrightarrow>
   parse_hex_digits acc (map hexdigit ns) = foldl (\<lambda>a n. 16 * a + n) acc ns"
  by (induction ns arbitrary: acc) (simp_all add: hexval_hexdigit)

lemma nibble_eq: "nibble d i = (unat d div 2 ^ (4 * (127 - i))) mod 16"
proof -
  have "nibble d i = take_bit 4 (drop_bit (4 * (127 - i)) (unat d))"
    by (simp only: nibble_def unsigned_take_bit_eq unat_drop_bit_eq)
  then show ?thesis by (simp add: take_bit_eq_mod drop_bit_eq_div)
qed

lemma nibble_lt: "nibble d i < 16"
  by (simp add: nibble_eq)

lemma foldl_nibbles:
  "k \<le> 128 \<Longrightarrow> foldl (\<lambda>a n. 16 * a + n) 0 (map (nibble d) [0..<k]) = unat d div 2 ^ (4 * (128 - k))"
proof (induction k)
  case 0
  have "unat d < 2 ^ 512" using unsigned_less[of d, where 'a=nat] by simp
  then show ?case by simp
next
  case (Suc k)
  then have k: "k < 128" by simp
  define Y where "Y = unat d div 2 ^ (4 * (127 - k))"
  have e: "4 * (128 - k) = 4 * (127 - k) + 4" using k by simp
  have "unat d div 2 ^ (4 * (128 - k)) = Y div 16"
    unfolding e Y_def power_add by (simp add: div_mult2_eq)
  moreover have "nibble d k = Y mod 16" by (simp add: nibble_eq Y_def)
  moreover have "128 - Suc k = 127 - k" by simp
  ultimately show ?case using Suc.IH k by (simp add: Y_def)
qed

lemma take13_digest_hex: "take 13 (digest_hex d) = map hexdigit (map (nibble d) [0..<13])"
  by (simp add: digest_hex_def take_map)

lemma parseInt16_prefix:
  "parseInt16 (take 13 (digest_hex d)) = Some (unat (drop_bit 460 d))"
proof -
  let ?ns = "map (nibble d) [0..<13]"
  have ne: "?ns = nibble d 0 # map (nibble d) [1..<13]"
    by (simp add: upt_rec[of 0 13])
  have lt: "\<forall>n\<in>set ?ns. n < 16" by (simp add: nibble_lt)
  have "parseInt16 (map hexdigit ?ns) = Some (parse_hex_digits 0 (map hexdigit ?ns))"
    unfolding parseInt16_def by (subst (1) ne) (simp add: hexval_hexdigit nibble_lt)
  also have "parse_hex_digits 0 (map hexdigit ?ns) = foldl (\<lambda>a n. 16 * a + n) 0 ?ns"
    using lt by (rule parse_hex_digits_map)
  also have "\<dots> = unat d div 2 ^ (4 * (128 - 13))"
    by (rule foldl_nibbles) simp
  also have "\<dots> = unat (drop_bit 460 d)"
    by (simp only: unat_drop_bit_eq) (simp only: drop_bit_eq_div, simp)
  finally show ?thesis by (simp only: take13_digest_hex)
qed

lemma top_bits_lt: "unat (drop_bit 460 (d :: 512 word)) < 2 ^ 52"
proof -
  have "unat d < 2 ^ 512" using unsigned_less[of d, where 'a=nat] by simp
  also have "(2::nat) ^ 512 = 2 ^ 52 * 2 ^ 460"
    using power_add[of "2::nat" 52 460] by simp
  finally have "unat d div 2 ^ 460 < 2 ^ 52"
    by (rule less_mult_imp_div_less)
  then show ?thesis by (simp only: unat_drop_bit_eq) (simp only: drop_bit_eq_div)
qed

lemma fl_denom: "fl (16 ^ 13) = 16 ^ 13"
proof -
  have "(16::rat) ^ 13 = rat_of_nat 1 * 2 powi 52" by simp
  moreover have "fl (rat_of_nat 1 * 2 powi 52) = rat_of_nat 1 * 2 powi 52"
    by (rule fl_exact) simp_all
  ultimately show ?thesis by (simp only:)
qed

lemma hmacFloat_value:
  "hmacFloat H sSeed message
     = Some (rat_of_nat (unat (drop_bit 460 (H sSeed message))) / 16 ^ 13)"
proof -
  let ?v = "unat (drop_bit 460 (H sSeed message))"
  have "?v < 2 ^ 53" using top_bits_lt[of "H sSeed message"] by simp
  then have "fl (rat_of_nat ?v / 2 ^ 52) = rat_of_nat ?v / 2 ^ 52" by (rule fl_exact_div)
  moreover have "(2::rat) ^ 52 = 16 ^ 13" by simp
  ultimately have "fl (rat_of_nat ?v / 16 ^ 13) = rat_of_nat ?v / 16 ^ 13" by (simp only:)
  then show ?thesis
    by (simp only: hmacFloat_def Let_def parseInt16_prefix fl_denom option.case)
qed

subsection \<open>The decimal numeral of the index\<close>

lemma digit_of_char: "n < 10 \<Longrightarrow> digit_of (char_of (48 + n)) = Some n"
  by (simp add: digit_of_def)

lemma read_digits_append:
  "read_digits acc (xs @ ys) = (case read_digits acc xs of None \<Rightarrow> None | Some a \<Rightarrow> read_digits a ys)"
  by (induction xs arbitrary: acc) (simp_all split: option.splits)

lemma read_digits_decimal: "read_digits 0 (decimal n) = Some n"
proof (induction n rule: decimal.induct)
  case (1 n)
  show ?case
  proof (cases "n < 10")
    case True
    then show ?thesis by (subst decimal.simps) (simp add: digit_of_char)
  next
    case False
    with 1 have ih: "read_digits 0 (decimal (n div 10)) = Some (n div 10)" by simp
    have "n mod 10 < 10" by simp
    then have d: "digit_of (char_of (48 + n mod 10)) = Some (n mod 10)" by (rule digit_of_char)
    show ?thesis using False
      by (subst decimal.simps) (simp add: read_digits_append ih d)
  qed
qed

lemma decimal_nonempty: "decimal n \<noteq> []"
  by (subst decimal.simps) simp

lemma decimal_length_one: "n < 10 \<Longrightarrow> length (decimal n) = 1"
  by (subst decimal.simps) simp

lemma hd_decimal: "0 < n \<Longrightarrow> hd (decimal n) \<noteq> CHR ''0''"
proof (induction n rule: decimal.induct)
  case (1 n)
  show ?case
  proof (cases "n < 10")
    case True
    have "of_char (char_of (48 + n) :: char) = (48 + n) mod 256" by simp
    with True 1(2) have ne: "of_char (char_of (48 + n) :: char) \<noteq> (48::nat)" by simp
    have "char_of (48 + n) \<noteq> CHR ''0''"
    proof
      assume "char_of (48 + n) = CHR ''0''"
      then have "of_char (char_of (48 + n) :: char) = (of_char CHR ''0'' :: nat)" by (rule arg_cong)
      with ne show False by simp
    qed
    with True show ?thesis by (subst decimal.simps) simp
  next
    case False
    then have "0 < n div 10" by simp
    with 1 False have "hd (decimal (n div 10)) \<noteq> CHR ''0''" by simp
    then show ?thesis using False
      by (subst decimal.simps) (simp add: hd_append decimal_nonempty)
  qed
qed

lemma read_decimal_decimal: "read_decimal (decimal n) = Some n"
proof (cases "n < 10")
  case True
  then show ?thesis
    by (simp add: read_decimal_def decimal_nonempty decimal_length_one read_digits_decimal)
next
  case False
  then have "hd (decimal n) \<noteq> CHR ''0''" by (intro hd_decimal) simp
  then show ?thesis by (simp add: read_decimal_def decimal_nonempty read_digits_decimal)
qed

text \<open>
  Claim C1. For every server seed, client seed pair and 0-based entry index, the fairness
  value is defined (never \<^verbatim>\<open>NaN\<close>): \<^verbatim>\<open>parseInt\<close> reads the first 13 hexadecimal characters
  of the HMAC digest of the message \<open>clientSeed1:clientSeed2:index\<close> (index in decimal) under
  the key \<open>serverSeed\<close> as the number \<open>n\<close> of the upper 52 bits of the digest, and the value is
  \<open>n / 16\<^sup>1\<^sup>3\<close>, which the binary64 division yields exactly; it lies in \<open>[0, 1)\<close>. It is a
  function of the four inputs (and of the HMAC), hence deterministic. The index is written
  in decimal: \<open>decimal i\<close> is a string of the digits 0 to 9, without a leading zero unless
  it is the single digit 0, whose value is \<open>i\<close>.
\<close>

theorem derive_spec:
  "read_decimal (decimal i) = Some i
   \<and> (\<exists>n v. parseInt16 (take 13 (digest_hex (H sSeed (cs1 @ '':'' @ cs2 @ '':'' @ decimal i)))) = Some n
     \<and> n = unat (drop_bit 460 (H sSeed (cs1 @ '':'' @ cs2 @ '':'' @ decimal i)))
     \<and> n < 16 ^ 13
     \<and> derive H sSeed cs1 cs2 i = Some v
     \<and> v = rat_of_nat n / 16 ^ 13
     \<and> 0 \<le> v \<and> v < 1)"
proof -
  define n where "n = unat (drop_bit 460
            (H sSeed (cs1 @ '':'' @ cs2 @ '':'' @ decimal i)))"
  have p: "parseInt16 (take 13 (digest_hex (H sSeed (cs1 @ '':'' @ cs2 @ '':'' @ decimal i)))) = Some n"
    unfolding n_def by (rule parseInt16_prefix)
  have n52: "n < 2 ^ 52" unfolding n_def by (rule top_bits_lt)
  then have n16: "n < 16 ^ 13" by simp
  from n52 have "rat_of_nat n < rat_of_nat (2 ^ 52)" by (simp only: of_nat_less_iff)
  also have "rat_of_nat (2 ^ 52) = 16 ^ 13" by simp
  finally have "rat_of_nat n / 16 ^ 13 < 1"
    by (simp only: divide_less_eq_1_pos zero_less_power zero_less_numeral)
  moreover have "0 \<le> rat_of_nat n / 16 ^ 13" by (rule divide_nonneg_nonneg) simp_all
  moreover have "derive H sSeed cs1 cs2 i = Some (rat_of_nat n / 16 ^ 13)"
    unfolding derive_def pf_message_def hmacFloat_value n_def ..
  ultimately have "\<exists>n v. parseInt16 (take 13 (digest_hex (H sSeed (cs1 @ '':'' @ cs2 @ '':'' @ decimal i)))) = Some n
     \<and> n = unat (drop_bit 460 (H sSeed (cs1 @ '':'' @ cs2 @ '':'' @ decimal i)))
     \<and> n < 16 ^ 13
     \<and> derive H sSeed cs1 cs2 i = Some v
     \<and> v = rat_of_nat n / 16 ^ 13
     \<and> 0 \<le> v \<and> v < 1"
    using p n16 unfolding n_def by blast
  with read_decimal_decimal[of i] show ?thesis by (rule_tac conjI)
qed


section \<open>Rounds, ranking, runs and joins\<close>

subsection \<open>Every round keeps a non-empty prefix\<close>

lemma keepCount_ge1: "1 \<le> keepCount n p"
  by (simp add: keepCount_def)

lemma toEliminate_ge1: "1 \<le> toEliminate n"
  by (simp add: toEliminate_def)

lemma final_keepCount_ge1: "1 \<le> final_keepCount n"
  by (simp add: final_keepCount_def)

lemma fst_play_round: "fst (play_round r p xs) = take (keepCount (length xs) p) xs"
  by (simp add: play_round_def Let_def)

lemma play_round_nonempty: "xs \<noteq> [] \<Longrightarrow> fst (play_round r p xs) \<noteq> []"
  using keepCount_ge1[of "length xs" p] by (auto simp: fst_play_round)

lemma play_round_hd: "xs \<noteq> [] \<Longrightarrow> hd (fst (play_round r p xs)) = hd xs"
  using keepCount_ge1[of "length xs" p] by (simp add: fst_play_round hd_take)

lemma play_rounds_prefix: "prefix (fst (play_rounds r ps xs)) xs"
proof (induction ps arbitrary: r xs)
  case Nil
  show ?case by simp
next
  case (Cons p ps)
  have "prefix (fst (play_rounds (r + 1) ps (fst (play_round r p xs)))) (fst (play_round r p xs))"
    by (rule Cons.IH)
  also have "prefix (fst (play_round r p xs)) xs"
    by (simp add: fst_play_round take_is_prefix)
  finally show ?case by (simp add: case_prod_beta)
qed

lemma play_rounds_keeps_top:
  "xs \<noteq> [] \<Longrightarrow> fst (play_rounds r ps xs) \<noteq> [] \<and> hd (fst (play_rounds r ps xs)) = hd xs"
proof (induction ps arbitrary: r xs)
  case Nil
  then show ?case by simp
next
  case (Cons p ps)
  from Cons.prems have ne: "fst (play_round r p xs) \<noteq> []" by (rule play_round_nonempty)
  from Cons.IH[OF ne, of "r + 1"] play_round_hd[OF Cons.prems, of r p]
  show ?case by (simp add: case_prod_beta)
qed

lemma final_round_Nil: "final_round c [] = ([], [])"
  by (subst final_round.simps) simp

lemma final_round_top: "xs \<noteq> [] \<Longrightarrow> fst (final_round c xs) = [hd xs]"
proof (induction c xs rule: final_round.induct)
  case (1 c xs)
  show ?case
  proof (cases "1 < length xs")
    case True
    let ?ys = "take (final_keepCount (length xs)) xs"
    have ne: "?ys \<noteq> []" using final_keepCount_ge1[of "length xs"] "1.prems" by auto
    have "hd ?ys = hd xs" using final_keepCount_ge1[of "length xs"] by (simp add: hd_take)
    with "1.IH"[OF True ne] have "fst (final_round (c + 1) ?ys) = [hd xs]" by simp
    then show ?thesis using True by (subst final_round.simps) (simp add: case_prod_beta)
  next
    case False
    with "1.prems" have "length xs = 1" by (cases xs) auto
    then have "xs = [hd xs]" by (cases xs) auto
    then show ?thesis using False by (subst final_round.simps) simp
  qed
qed

lemma final_round_prefix: "prefix (fst (final_round c xs)) xs"
proof (cases xs)
  case Nil then show ?thesis by (simp add: final_round_Nil)
next
  case (Cons x ys)
  then show ?thesis using final_round_top[of xs c] by simp
qed

subsection \<open>No progress message shows zero entries\<close>







subsection \<open>The sort\<close>

lemma desc_key_fairness: "desc_key a = - fairness a"
  by (simp add: desc_key_def fairness_def split: option.split)

lemma ranks_before_alt:
  "ranks_before a b \<longleftrightarrow> desc_key a < desc_key b \<or> (desc_key a = desc_key b \<and> fst a < fst b)"
  by (auto simp: ranks_before_def desc_key_fairness)

lemma insort_ranks_before:
  assumes "sorted_wrt ranks_before ys" "\<forall>y\<in>set ys. fst x < fst y"
  shows "sorted_wrt ranks_before (insort_key desc_key x ys)"
  using assms
proof (induction ys)
  case Nil
  show ?case by simp
next
  case (Cons y ys)
  show ?case
  proof (cases "desc_key x \<le> desc_key y")
    case True
    have "ranks_before x z" if "z \<in> set (y # ys)" for z
    proof -
      have "desc_key y \<le> desc_key z"
        using that Cons.prems(1) by (auto simp: ranks_before_alt)
      with True have "desc_key x \<le> desc_key z" by simp
      moreover have "fst x < fst z" using that Cons.prems(2) by auto
      ultimately show ?thesis by (auto simp: ranks_before_alt)
    qed
    with True Cons.prems(1) show ?thesis by simp
  next
    case False
    then have "ranks_before y x" by (simp add: ranks_before_alt)
    moreover have "sorted_wrt ranks_before (insort_key desc_key x ys)"
      using Cons.IH Cons.prems by simp
    ultimately show ?thesis using False Cons.prems(1) by (auto simp: set_insort_key)
  qed
qed

lemma sort_desc_ranks_before:
  "sorted_wrt (<) (map fst xs) \<Longrightarrow> sorted_wrt ranks_before (sort_desc xs)"
proof (induction xs)
  case Nil
  show ?case by (simp add: sort_desc_def)
next
  case (Cons x xs)
  from Cons.prems have "\<forall>y\<in>set (sort_key desc_key xs). fst x < fst y" by auto
  moreover from Cons have "sorted_wrt ranks_before (sort_key desc_key xs)"
    by (simp add: sort_desc_def)
  ultimately show ?case
    unfolding sort_desc_def sort_key_simps by (rule insort_ranks_before[rotated])
qed

lemma select_top_Nil_iff: "select_top xs = None \<longleftrightarrow> xs = []"
  by (cases xs) (auto split: option.split)

lemma hd_insort_key:
  "hd (insort_key f x ys) = (if ys = [] \<or> f x \<le> f (hd ys) then x else hd ys)"
  by (cases ys) auto

lemma sort_desc_hd: "xs \<noteq> [] \<Longrightarrow> select_top xs = Some (hd (sort_desc xs))"
proof (induction xs)
  case Nil
  then show ?case by simp
next
  case (Cons x xs)
  show ?case
  proof (cases "xs = []")
    case True
    then show ?thesis by (simp add: sort_desc_def)
  next
    case False
    with Cons.IH have st: "select_top xs = Some (hd (sort_desc xs))" by simp
    have ne: "sort_key desc_key xs \<noteq> []" using False
      by (metis length_0_conv length_sort)
    show ?thesis
      using st ne
      by (simp add: sort_desc_def hd_insort_key desc_key_fairness)
  qed
qed

subsection \<open>The ranking\<close>

lemma length_assign_floats [simp]: "length (assign_floats H s c1 c2 es) = length es"
  by (simp add: assign_floats_def)

lemma assign_floats_Nil_iff [simp]: "assign_floats H s c1 c2 es = [] \<longleftrightarrow> es = []"
  using length_assign_floats[of H s c1 c2 es] by (simp only: flip: length_0_conv)

lemma assign_floats_nth:
  "i < length es \<Longrightarrow> assign_floats H s c1 c2 es ! i = (es ! i)\<lparr>pfFloat := derive H s c1 c2 i\<rparr>"
  by (simp add: assign_floats_def nth_enumerate_eq)

lemma assign_floats_fields:
  "map entry_id (assign_floats H s c1 c2 es) = map entry_id es"
  "map userId (assign_floats H s c1 c2 es) = map userId es"
  "map username (assign_floats H s c1 c2 es) = map username es"
  "map pfFloat (assign_floats H s c1 c2 es) = map (derive H s c1 c2) [0..<length es]"
  by (rule nth_equalityI; simp add: assign_floats_nth)+

lemma enumerate_fst: "map fst (enumerate 0 xs) = [0..<length xs]"
  by (simp add: enumerate_eq_zip)

lemma ranking_sorted: "sorted_wrt ranks_before (ranking H s c1 c2 es)"
proof -
  have "sorted_wrt (<) (map fst (enumerate 0 (assign_floats H s c1 c2 es)))"
    by (simp only: enumerate_fst sorted_wrt_upt)
  then show ?thesis unfolding ranking_def by (rule sort_desc_ranks_before)
qed

lemma mset_ranking: "mset (ranking H s c1 c2 es) = mset (enumerate 0 (assign_floats H s c1 c2 es))"
  by (simp add: ranking_def sort_desc_def)

lemma set_ranking: "set (ranking H s c1 c2 es) = set (enumerate 0 (assign_floats H s c1 c2 es))"
  by (simp add: ranking_def sort_desc_def)

lemma length_ranking [simp]: "length (ranking H s c1 c2 es) = length es"
  by (simp add: ranking_def sort_desc_def)

lemma ranking_Nil_iff [simp]: "ranking H s c1 c2 es = [] \<longleftrightarrow> es = []"
  using length_ranking[of H s c1 c2 es] by (simp only: flip: length_0_conv)

lemma ranking_member:
  assumes "ie \<in> set (ranking H s c1 c2 es)"
  shows "fst ie < length es" "snd ie = (es ! fst ie)\<lparr>pfFloat := derive H s c1 c2 (fst ie)\<rparr>"
proof -
  from assms have "ie \<in> set (enumerate 0 (assign_floats H s c1 c2 es))"
    by (simp only: set_ranking)
  then have a: "fst ie < length es" and b: "snd ie = assign_floats H s c1 c2 es ! fst ie"
    by (auto simp: in_set_enumerate_eq)
  from a show "fst ie < length es" .
  from a b show "snd ie = (es ! fst ie)\<lparr>pfFloat := derive H s c1 c2 (fst ie)\<rparr>"
    by (simp add: assign_floats_nth)
qed

lemma ranking_values:
  "map (pfFloat \<circ> snd) (ranking H s c1 c2 es) = map (derive H s c1 c2 \<circ> fst) (ranking H s c1 c2 es)"
  by (rule map_cong[OF refl]) (simp add: ranking_member(2))

lemma ranking_indices: "mset (map fst (ranking H s c1 c2 es)) = mset [0..<length es]"
proof -
  have "mset (map fst (ranking H s c1 c2 es)) = image_mset fst (mset (ranking H s c1 c2 es))"
    by simp
  also have "\<dots> = mset (map fst (enumerate 0 (assign_floats H s c1 c2 es)))"
    by (simp only: mset_ranking mset_map)
  finally show ?thesis by (simp only: enumerate_fst length_assign_floats)
qed

lemma final_rows_perm:
  "mset (map final_row (ranking H s c1 c2 es))
     = mset (map (\<lambda>e. (entry_id e, userId e, pfFloat e)) (assign_floats H s c1 c2 es))"
proof -
  have "mset (map final_row (ranking H s c1 c2 es))
          = image_mset final_row (mset (enumerate 0 (assign_floats H s c1 c2 es)))"
    by (simp only: mset_map mset_ranking)
  also have "\<dots> = mset (map final_row (enumerate 0 (assign_floats H s c1 c2 es)))"
    by simp
  also have "map final_row (enumerate 0 (assign_floats H s c1 c2 es))
          = map (\<lambda>e. (entry_id e, userId e, pfFloat e)) (assign_floats H s c1 c2 es)"
    by (rule nth_equalityI) (simp_all add: final_row_def nth_enumerate_eq)
  finally show ?thesis .
qed

lemma ranking_top:
  "es \<noteq> [] \<Longrightarrow>
   select_top (enumerate 0 (assign_floats H s c1 c2 es)) = Some (hd (ranking H s c1 c2 es))"
  unfolding ranking_def by (rule sort_desc_hd) (simp add: enumerate_eq_zip)

subsection \<open>The result of a run\<close>

lemma run_events_progress: "run_events r = run_progress r @ [Send_winner (snd (hd r)), Edit_ended (snd (hd r))]"
  by (simp add: run_events_def run_progress_def)

lemma run_result:
  assumes "GW gwId = Some gw" "\<not> falsy (clientSeed1 gw)" "\<not> falsy (clientSeed2 gw)"
    "channel_found env" "message_found env" "entries gw \<noteq> []"
  shows "runBattleRoyale H env GW gwId =
    (let r = ranking H (serverSeed gw) (the (clientSeed1 gw)) (the (clientSeed2 gw)) (entries gw);
         scored = assign_floats H (serverSeed gw) (the (clientSeed1 gw)) (the (clientSeed2 gw))
                    (entries gw);
         GW' = GW(gwId \<mapsto> gw\<lparr>entries := scored, winner := Some (snd (hd r)),
                                      finalFloats := Some (map final_row r)\<rparr>)
     in case find (thrown env) (run_progress r) of
          Some ev \<Rightarrow> Inl (Platform_error ev, GW(gwId \<mapsto> gw\<lparr>entries := scored\<rparr>))
        | None \<Rightarrow>
            if \<not> persists env then Inl (Write_failed, GW')
            else if thrown env (Send_winner (snd (hd r)))
            then Inl (Platform_error (Send_winner (snd (hd r))), GW')
            else Inr (GW', run_events r))"
proof -
  let ?r = "ranking H (serverSeed gw) (the (clientSeed1 gw)) (the (clientSeed2 gw)) (entries gw)"
  have ne: "?r \<noteq> []" using assms(6) by simp
  from play_rounds_keeps_top[OF ne, of 0 rounds]
  have a: "fst (play_rounds 0 rounds ?r) \<noteq> []" and b: "hd (fst (play_rounds 0 rounds ?r)) = hd ?r"
    by simp_all
  have f: "fst (final_round 0 (fst (play_rounds 0 rounds ?r))) = [hd ?r]"
    using final_round_top[OF a, of 0] b by simp
  show ?thesis
    using assms f
    by (simp add: runBattleRoyale_def Let_def case_prod_beta run_events_def run_progress_def
          flip: ranking_def split: option.splits)
qed

lemma run_result_Inr:
  assumes "GW gwId = Some gw" "\<not> falsy (clientSeed1 gw)" "\<not> falsy (clientSeed2 gw)"
    "channel_found env" "message_found env" "entries gw \<noteq> []"
    "runBattleRoyale H env GW gwId = Inr (GW', evs)"
  shows "GW' = GW(gwId \<mapsto> gw\<lparr>entries := assign_floats H (serverSeed gw) (the (clientSeed1 gw))
                                      (the (clientSeed2 gw)) (entries gw),
                         winner := Some (snd (hd (ranking H (serverSeed gw) (the (clientSeed1 gw))
                                      (the (clientSeed2 gw)) (entries gw)))),
                         finalFloats := Some (map final_row (ranking H (serverSeed gw)
                                      (the (clientSeed1 gw)) (the (clientSeed2 gw)) (entries gw)))\<rparr>)"
    and "evs = run_events (ranking H (serverSeed gw) (the (clientSeed1 gw)) (the (clientSeed2 gw)) (entries gw))"
    and "find (thrown env) (run_progress (ranking H (serverSeed gw) (the (clientSeed1 gw))
            (the (clientSeed2 gw)) (entries gw))) = None"
    and "persists env"
    and "\<not> thrown env (Send_winner (snd (hd (ranking H (serverSeed gw) (the (clientSeed1 gw))
            (the (clientSeed2 gw)) (entries gw)))))"
  using assms(7) unfolding run_result[where GW = GW and gwId = gwId and gw = gw, OF assms(1-6)] Let_def
  by (auto split: option.splits if_splits)

lemma run_result_ok:
  assumes "GW gwId = Some gw" "\<not> falsy (clientSeed1 gw)" "\<not> falsy (clientSeed2 gw)"
    "channel_found env" "message_found env" "entries gw \<noteq> []"
    "\<And>ev. \<not> thrown env ev" "persists env"
  shows "runBattleRoyale H env GW gwId =
    Inr (GW(gwId \<mapsto> gw\<lparr>entries := assign_floats H (serverSeed gw) (the (clientSeed1 gw))
                                      (the (clientSeed2 gw)) (entries gw),
                         winner := Some (snd (hd (ranking H (serverSeed gw) (the (clientSeed1 gw))
                                      (the (clientSeed2 gw)) (entries gw)))),
                         finalFloats := Some (map final_row (ranking H (serverSeed gw)
                                      (the (clientSeed1 gw)) (the (clientSeed2 gw)) (entries gw)))\<rparr>),
         run_events (ranking H (serverSeed gw) (the (clientSeed1 gw)) (the (clientSeed2 gw)) (entries gw)))"
proof -
  have "find (thrown env) xs = None" for xs
    using assms(7) by (simp add: find_None_iff)
  then show ?thesis
    unfolding run_result[where GW = GW and gwId = gwId and gw = gw, OF assms(1-6)] Let_def
    using assms(7,8) by (simp del: thrown.simps)
qed

subsection \<open>The stand-in HMAC\<close>

lemma toyH_top:
  "unat (drop_bit 460 (toyH k m)) = (if even (length m + of_char (last m)) then 0 else 2 ^ 51)"
proof -
  have "drop_bit 460 (2 ^ 511 :: 512 word) = 2 ^ 51"
    by (simp add: drop_bit_eq_div flip: power_diff)
  then show ?thesis by (simp add: toyH_def)
qed

lemma derive_toyH:
  "derive toyH k ''a'' ''b'' 0 = Some (1 / 2)"
  "derive toyH k ''a'' ''b'' 1 = Some 0"
  "derive toyH k ''aa'' ''b'' 0 = Some 0"
  "derive toyH k ''aa'' ''b'' 1 = Some (1 / 2)"
  "derive toyH k ''a'' ''b'' (Suc 0) = Some 0"
  "derive toyH k ''aa'' ''b'' (Suc 0) = Some (1 / 2)"
  by (simp_all add: derive_def hmacFloat_value pf_message_def decimal.simps toyH_top)


subsection \<open>Floors of rounded products\<close>

lemma pow2_pos: "(0::rat) < 2 powi j"
  by (rule zero_less_power_int) simp

lemma fl_pos_unfold:
  "0 < x \<Longrightarrow> fl x = rat_of_int (round_half_even (x / 2 powi (ilog2 x - 52))) * 2 powi (ilog2 x - 52)"
  by (simp add: fl_def Let_def)

lemma fl_ge_grid:
  assumes "0 < x" and "rat_of_int z * 2 powi (ilog2 x - 52) - 2 powi (ilog2 x - 52) / 2 < x"
  shows "rat_of_int z * 2 powi (ilog2 x - 52) \<le> fl x"
proof -
  define u where "u = (2::rat) powi (ilog2 x - 52)"
  have u: "0 < u" unfolding u_def by (rule pow2_pos)
  from assms(2) have "(rat_of_int z - 1 / 2) * u < x"
    by (simp add: u_def algebra_simps)
  then have "rat_of_int z - 1 / 2 < x / u" using u by (simp add: pos_less_divide_eq)
  moreover have "x / u - 1 / 2 \<le> rat_of_int (round_half_even (x / u))"
    by (rule round_half_even_close)
  ultimately have "rat_of_int z - 1 < rat_of_int (round_half_even (x / u))" by linarith
  then have "rat_of_int (z - 1) < rat_of_int (round_half_even (x / u))" by simp
  then have "z - 1 < round_half_even (x / u)" by (simp only: of_int_less_iff)
  then have "z \<le> round_half_even (x / u)" by simp
  then have "rat_of_int z \<le> rat_of_int (round_half_even (x / u))" by (simp only: of_int_le_iff)
  then have "rat_of_int z * u \<le> rat_of_int (round_half_even (x / u)) * u"
    using u by (simp add: mult_right_mono)
  then show ?thesis using assms(1) by (simp add: fl_pos_unfold u_def)
qed

lemma fl_le_half_ulp:
  assumes "0 < x"
  shows "fl x \<le> x + 2 powi (ilog2 x - 52) / 2"
proof -
  define u where "u = (2::rat) powi (ilog2 x - 52)"
  have u: "0 < u" unfolding u_def by (rule pow2_pos)
  have "rat_of_int (round_half_even (x / u)) \<le> x / u + 1 / 2"
    by (rule round_half_even_close)
  then have "rat_of_int (round_half_even (x / u)) * u \<le> (x / u + 1 / 2) * u"
    using u by (simp add: mult_right_mono)
  also have "\<dots> = x + u / 2" using u by (simp add: algebra_simps)
  finally show ?thesis using assms by (simp add: fl_pos_unfold u_def)
qed

lemma ulp_bounds:
  assumes "0 < x"
  shows "2 powi (ilog2 x - 52) \<le> x / 2 ^ 52" "x / 2 ^ 53 < 2 powi (ilog2 x - 52)"
proof -
  from ilog2_bounds[OF assms]
  have lo: "(2::rat) powi ilog2 x \<le> x" and hi: "x < (2::rat) powi (ilog2 x + 1)" by auto
  have a: "(2::rat) powi (ilog2 x - 52) = 2 powi ilog2 x / 2 ^ 52"
    by (simp add: power_int_diff)
  have b: "(2::rat) powi (ilog2 x + 1) = 2 powi ilog2 x * 2"
    by (simp add: power_int_add)
  show "2 powi (ilog2 x - 52) \<le> x / 2 ^ 52"
    unfolding a using lo by (simp add: divide_right_mono)
  have "x / 2 ^ 53 < 2 powi ilog2 x * 2 / 2 ^ 53"
    using hi unfolding b by (simp add: divide_strict_right_mono)
  also have "\<dots> = 2 powi ilog2 x / 2 ^ 52" by simp
  finally show "x / 2 ^ 53 < 2 powi (ilog2 x - 52)" unfolding a .
qed

lemma floor_fl_mul:
  fixes n a b :: nat and c' :: rat
  assumes n: "0 < n" "n < 2 ^ 32"
    and c: "0 < c'" "c' < 1"
    and b: "0 < b" "b \<le> 2 ^ 20"
    and le: "c' \<le> rat_of_nat a / rat_of_nat b"
    and close: "(rat_of_nat a / rat_of_nat b - c') * 2 ^ 54 \<le> c'"
  shows "floor (fl (rat_of_nat n * c')) = int (a * n div b)"
proof -
  define x where "x = rat_of_nat n * c'"
  define K where "K = a * n div b"
  define e where "e = ilog2 x"
  define u where "u = (2::rat) powi (e - 52)"
  have npos: "0 < rat_of_nat n" using n(1) by simp
  have bpos: "0 < rat_of_nat b" using b(1) by simp
  have x0: "0 < x" unfolding x_def using npos c(1) by simp
  have u0: "0 < u" unfolding u_def by (rule pow2_pos)
  have "rat_of_nat n < rat_of_nat (2 ^ 32)" using n(2) by (simp only: of_nat_less_iff)
  then have n32: "rat_of_nat n < 2 ^ 32" by simp
  have "x < rat_of_nat n * 1" unfolding x_def using npos c(2) by (simp only: mult_strict_left_mono)
  with n32 have x32: "x < 2 ^ 32" by simp
  from ilog2_bounds[OF x0] have "(2::rat) powi e \<le> x" by (simp add: e_def)
  with x32 have "(2::rat) powi e < 2 powi 32" by simp
  then have e32: "e < 32" by (rule pow2_less_D)
  \<comment> \<open>the integer \<open>K\<close> lies on the grid of spacing \<open>u\<close>\<close>
  define z where "z = int K * 2 ^ nat (52 - e)"
  have "(2::rat) powi (52 - e) = 2 ^ nat (52 - e)" using e32 by (simp add: power_int_def)
  moreover have "(2::rat) powi (52 - e) * 2 powi (e - 52) = 1"
    by (simp flip: power_int_add)
  ultimately have zu: "rat_of_int z * u = rat_of_nat K"
    by (simp add: z_def u_def mult.assoc)
  \<comment> \<open>the exact quotient\<close>
  have "K * b \<le> a * n" unfolding K_def by simp
  then have "rat_of_nat (K * b) \<le> rat_of_nat (a * n)" by (simp only: of_nat_le_iff)
  then have Kle: "rat_of_nat K \<le> rat_of_nat a * rat_of_nat n / rat_of_nat b"
    using bpos by (simp add: pos_le_divide_eq)
  have "a * n < K * b + b" unfolding K_def using b(1)
    by (metis div_mult_mod_eq add_less_cancel_left mod_less_divisor mult.commute)
  then have "a * n + 1 \<le> K * b + b" by simp
  then have "rat_of_nat (a * n + 1) \<le> rat_of_nat (K * b + b)" by (simp only: of_nat_le_iff)
  then have "rat_of_nat a * rat_of_nat n + 1 \<le> (rat_of_nat K + 1) * rat_of_nat b"
    by (simp add: algebra_simps)
  then have Kup: "rat_of_nat a * rat_of_nat n / rat_of_nat b + 1 / rat_of_nat b \<le> rat_of_nat K + 1"
    using bpos by (simp add: pos_divide_le_eq add_divide_distrib[symmetric])
  \<comment> \<open>the product is below the exact quotient, by less than half a unit in the last place\<close>
  have xq: "rat_of_nat a * rat_of_nat n / rat_of_nat b - x
              = rat_of_nat n * (rat_of_nat a / rat_of_nat b - c')"
    by (simp add: x_def algebra_simps)
  have "rat_of_nat n * c' \<le> rat_of_nat n * (rat_of_nat a / rat_of_nat b)"
    using le npos by (simp only: mult_le_cancel_left_pos)
  then have xle: "x \<le> rat_of_nat a * rat_of_nat n / rat_of_nat b"
    by (simp add: x_def mult.commute)
  have "rat_of_nat n * ((rat_of_nat a / rat_of_nat b - c') * 2 ^ 54) \<le> rat_of_nat n * c'"
    using close npos by (simp only: mult_le_cancel_left_pos)
  then have "rat_of_nat n * (rat_of_nat a / rat_of_nat b - c') \<le> x / 2 ^ 54"
    by (simp add: x_def pos_le_divide_eq algebra_simps)
  moreover from ulp_bounds(2)[OF x0] have "x / 2 ^ 54 < u / 2" by (simp add: u_def e_def)
  ultimately have "rat_of_nat a * rat_of_nat n / rat_of_nat b - x < u / 2"
    unfolding xq by (rule le_less_trans)
  with Kle have "rat_of_nat K - u / 2 < x" by linarith
  then have "rat_of_int z * 2 powi (ilog2 x - 52) - 2 powi (ilog2 x - 52) / 2 < x"
    by (simp only: zu flip: u_def e_def)
  from fl_ge_grid[OF x0 this] have lo: "rat_of_nat K \<le> fl x"
    by (simp only: zu flip: u_def e_def)
  \<comment> \<open>rounding does not reach the next integer\<close>
  from ulp_bounds(1)[OF x0] have "u / 2 \<le> x / 2 ^ 53" by (simp add: u_def e_def)
  also have "\<dots> < 2 ^ 32 / 2 ^ 53" using x32 by (simp only: divide_strict_right_mono zero_less_power zero_less_numeral)
  also have "\<dots> \<le> 1 / 2 ^ 20" by simp
  also have "\<dots> \<le> 1 / rat_of_nat b"
  proof -
    have "rat_of_nat b \<le> rat_of_nat (2 ^ 20)" using b(2) by (simp only: of_nat_le_iff)
    then have "rat_of_nat b \<le> 2 ^ 20" by simp
    then show ?thesis using bpos by (simp add: frac_le)
  qed
  finally have "u / 2 < 1 / rat_of_nat b" .
  moreover from fl_le_half_ulp[OF x0] have "fl x \<le> x + u / 2" by (simp add: u_def e_def)
  ultimately have hi: "fl x < rat_of_nat K + 1" using xle Kup by linarith
  have "floor (fl x) = int K"
    by (rule floor_unique) (use lo hi in simp_all)
  then show ?thesis by (simp add: x_def K_def)
qed

lemma fl_consts:
  "fl (12 / 100) = 1080863910568919 / 9007199254740992"
  "fl (1 - fl (40 / 100)) = 5404319552844595 / 9007199254740992"
  "fl (1 - fl (25 / 100)) = 3 / 4"
  "fl (1 - fl (30 / 100)) = 3152519739159347 / 4503599627370496"
  by code_simp+

lemma fl_zero [simp]: "fl 0 = 0"
  by (simp add: fl_def)


lemma nat_max1_int: "nat (max 1 (int k)) = max 1 k"
  by (simp add: max_def)

lemma rounds_nth: "rounds ! 0 = fl (30 / 100)" "rounds ! 1 = fl (40 / 100)" "rounds ! 2 = fl (25 / 100)"
  by (simp_all add: rounds_def)

lemma keepCount_round2:
  assumes "n < 2 ^ 32"
  shows "keepCount n (rounds ! 1) = max 1 (60 * n div 100)"
proof (cases "n = 0")
  case True
  then show ?thesis by (simp add: keepCount_def)
next
  case False
  then have n: "0 < n" by simp
  have "floor (fl (rat_of_nat n * (5404319552844595 / 9007199254740992))) = int (60 * n div 100)"
    by (rule floor_fl_mul[OF n assms]) simp_all
  then show ?thesis by (simp only: keepCount_def rounds_nth fl_consts nat_max1_int)
qed

lemma keepCount_round3:
  assumes "n < 2 ^ 32"
  shows "keepCount n (rounds ! 2) = max 1 (75 * n div 100)"
proof (cases "n = 0")
  case True
  then show ?thesis by (simp add: keepCount_def)
next
  case False
  then have n: "0 < n" by simp
  have "floor (fl (rat_of_nat n * (3 / 4))) = int (75 * n div 100)"
    by (rule floor_fl_mul[OF n assms]) simp_all
  then show ?thesis by (simp only: keepCount_def rounds_nth fl_consts nat_max1_int)
qed

lemma fl_ge_half_ulp:
  assumes "0 < x"
  shows "x - 2 powi (ilog2 x - 52) / 2 \<le> fl x"
proof -
  define u where "u = (2::rat) powi (ilog2 x - 52)"
  have u: "0 < u" unfolding u_def by (rule pow2_pos)
  have r: "x / u - 1 / 2 \<le> rat_of_int (round_half_even (x / u))"
    by (rule round_half_even_close)
  have "x - u / 2 = (x / u - 1 / 2) * u" using u by (simp add: algebra_simps)
  also have "\<dots> \<le> rat_of_int (round_half_even (x / u)) * u"
    using u r by (simp only: mult_right_mono less_imp_le)
  also have "\<dots> = fl x" using assms by (simp add: fl_pos_unfold u_def)
  finally show ?thesis by (simp only: u_def)
qed

lemma floor_fl_mul_near:
  fixes n a b :: nat and c' :: rat
  assumes n: "0 < n" "n < 2 ^ 32"
    and c: "0 < c'" "c' < 1"
    and b: "0 < b" "b \<le> 2 ^ 20"
    and le: "c' \<le> rat_of_nat a / rat_of_nat b"
    and err: "rat_of_nat a / rat_of_nat b - c' \<le> 1 / 2 ^ 53"
  shows "int (a * n div b) - 1 \<le> floor (fl (rat_of_nat n * c'))
       \<and> floor (fl (rat_of_nat n * c')) \<le> int (a * n div b)"
proof -
  define x where "x = rat_of_nat n * c'"
  define K where "K = a * n div b"
  define u where "u = (2::rat) powi (ilog2 x - 52)"
  have npos: "0 < rat_of_nat n" using n(1) by simp
  have bpos: "0 < rat_of_nat b" using b(1) by simp
  have x0: "0 < x" unfolding x_def using npos c(1) by simp
  have "rat_of_nat n < rat_of_nat (2 ^ 32)" using n(2) by (simp only: of_nat_less_iff)
  then have n32: "rat_of_nat n < 2 ^ 32" by simp
  have "x < rat_of_nat n * 1" unfolding x_def using npos c(2) by (simp only: mult_strict_left_mono)
  with n32 have x32: "x < 2 ^ 32" by simp
  have "K * b \<le> a * n" unfolding K_def by simp
  then have "rat_of_nat (K * b) \<le> rat_of_nat (a * n)" by (simp only: of_nat_le_iff)
  then have Kle: "rat_of_nat K \<le> rat_of_nat a * rat_of_nat n / rat_of_nat b"
    using bpos by (simp add: pos_le_divide_eq)
  have "a * n < K * b + b" unfolding K_def using b(1)
    by (metis div_mult_mod_eq add_less_cancel_left mod_less_divisor mult.commute)
  then have "a * n + 1 \<le> K * b + b" by simp
  then have "rat_of_nat (a * n + 1) \<le> rat_of_nat (K * b + b)" by (simp only: of_nat_le_iff)
  then have "rat_of_nat a * rat_of_nat n + 1 \<le> (rat_of_nat K + 1) * rat_of_nat b"
    by (simp add: algebra_simps)
  then have Kup: "rat_of_nat a * rat_of_nat n / rat_of_nat b + 1 / rat_of_nat b \<le> rat_of_nat K + 1"
    using bpos by (simp add: pos_divide_le_eq add_divide_distrib[symmetric])
  have xq: "rat_of_nat a * rat_of_nat n / rat_of_nat b - x
              = rat_of_nat n * (rat_of_nat a / rat_of_nat b - c')"
    by (simp add: x_def algebra_simps)
  have "rat_of_nat n * c' \<le> rat_of_nat n * (rat_of_nat a / rat_of_nat b)"
    using le npos by (simp only: mult_le_cancel_left_pos)
  then have xle: "x \<le> rat_of_nat a * rat_of_nat n / rat_of_nat b"
    by (simp add: x_def mult.commute)
  from ulp_bounds(1)[OF x0] have "u / 2 \<le> x / 2 ^ 53" by (simp add: u_def)
  also have "\<dots> < 2 ^ 32 / 2 ^ 53"
    using x32 by (simp only: divide_strict_right_mono zero_less_power zero_less_numeral)
  also have "\<dots> = 1 / 2 ^ 21" by simp
  finally have u21: "u / 2 < 1 / 2 ^ 21" .
  have "(1::rat) / 2 ^ 21 \<le> 1 / 2 ^ 20" by simp
  also have "\<dots> \<le> 1 / rat_of_nat b"
  proof -
    have "rat_of_nat b \<le> rat_of_nat (2 ^ 20)" using b(2) by (simp only: of_nat_le_iff)
    then have "rat_of_nat b \<le> 2 ^ 20" by simp
    then show ?thesis using bpos by (simp add: frac_le)
  qed
  finally have "(1::rat) / 2 ^ 21 \<le> 1 / rat_of_nat b" .
  with u21 have "u / 2 < 1 / rat_of_nat b" by simp
  moreover from fl_le_half_ulp[OF x0] have "fl x \<le> x + u / 2" by (simp add: u_def)
  ultimately have hi: "fl x < rat_of_nat K + 1" using xle Kup by linarith
  have "rat_of_nat n * (rat_of_nat a / rat_of_nat b - c') \<le> rat_of_nat n * (1 / 2 ^ 53)"
    using err npos by (simp only: mult_le_cancel_left_pos)
  also have "\<dots> < 2 ^ 32 * (1 / 2 ^ 53)"
    using n32 by (simp only: mult_strict_right_mono zero_less_divide_1_iff zero_less_power zero_less_numeral)
  also have "\<dots> = 1 / 2 ^ 21" by simp
  finally have "rat_of_nat a * rat_of_nat n / rat_of_nat b - x < 1 / 2 ^ 21"
    unfolding xq .
  moreover from fl_ge_half_ulp[OF x0] have "x - u / 2 \<le> fl x" by (simp add: u_def)
  moreover have "(1::rat) / 2 ^ 21 < 1 / 2" by simp
  ultimately have "rat_of_nat K - 1 \<le> fl x" using Kle u21 by linarith
  then have "rat_of_int (int K - 1) \<le> fl x" by simp
  then have lo: "int K - 1 \<le> floor (fl x)" by (simp only: le_floor_iff)
  from hi have "fl x < rat_of_int (int K + 1)" by simp
  then have "floor (fl x) < int K + 1" by (simp only: floor_less_iff)
  with lo show ?thesis by (simp add: x_def K_def)
qed

lemma keepCount_round1:
  assumes "n < 2 ^ 32"
  shows "keepCount n (rounds ! 0) = max 1 (70 * n div 100)
       \<or> keepCount n (rounds ! 0) = max 1 (70 * n div 100 - 1)"
proof (cases "n = 0")
  case True
  then show ?thesis by (simp add: keepCount_def)
next
  case False
  then have n: "0 < n" by simp
  define f where "f = floor (fl (rat_of_nat n * (3152519739159347 / 4503599627370496)))"
  have "int (70 * n div 100) - 1 \<le> f \<and> f \<le> int (70 * n div 100)"
    unfolding f_def by (rule floor_fl_mul_near[OF n assms]) simp_all
  then have "f = int (70 * n div 100) \<or> f = int (70 * n div 100) - 1" by linarith
  moreover have "keepCount n (rounds ! 0) = nat (max 1 f)"
    by (simp only: keepCount_def rounds_nth fl_consts f_def)
  ultimately show ?thesis by (auto simp: max_def)
qed

lemma keepCount_le:
  assumes "0 < n" "n < 2 ^ 32" "p \<in> set rounds"
  shows "keepCount n p \<le> n"
proof -
  from assms(3) have "p = rounds ! 0 \<or> p = rounds ! 1 \<or> p = rounds ! 2"
    by (auto simp: rounds_def)
  moreover have "70 * n div 100 \<le> n" "60 * n div 100 \<le> n" "75 * n div 100 \<le> n"
    "70 * n div 100 - 1 \<le> n"
    by arith+
  ultimately show ?thesis
    using keepCount_round1[OF assms(2)] keepCount_round2[OF assms(2)] keepCount_round3[OF assms(2)] assms(1)
    by (auto simp only: max_def split: if_splits)
qed

lemma keepCount_values:
  "keepCount 10 (rounds ! 0) = 7" "keepCount 7 (rounds ! 1) = 4" "keepCount 4 (rounds ! 2) = 3"
  "keepCount 90 (rounds ! 0) = 62"
proof -
  show "keepCount 10 (rounds ! 0) = 7" by code_simp
  show "keepCount 90 (rounds ! 0) = 62" by code_simp
  show "keepCount 7 (rounds ! 1) = 4" by (subst keepCount_round2) simp_all
  show "keepCount 4 (rounds ! 2) = 3" by (subst keepCount_round3) simp_all
qed

subsection \<open>Keep counts of rounds 1 to 3\<close>

lemma snd_play_round_last:
  "last (snd (play_round r p xs))
     = Send_round_result (r + 1) (length xs - keepCount (length xs) p)
         (min (length xs) (keepCount (length xs) p))"
  by (simp add: play_round_def Let_def)

lemma play_rounds_three:
  "fst (play_rounds 0 rounds xs)
     = fst (play_round 2 (rounds ! 2) (fst (play_round 1 (rounds ! 1) (fst (play_round 0 (rounds ! 0) xs)))))"
  by (simp add: rounds_def case_prod_beta numeral_2_eq_2)

lemma ten_seven_four_three:
  assumes "length xs = 10"
  shows "fst (play_round 0 (rounds ! 0) xs) = take 7 xs"
    "fst (play_round 1 (rounds ! 1) (take 7 xs)) = take 4 xs"
    "fst (play_round 2 (rounds ! 2) (take 4 xs)) = take 3 xs"
    "fst (play_rounds 0 rounds xs) = take 3 xs"
proof -
  show a: "fst (play_round 0 (rounds ! 0) xs) = take 7 xs"
    using assms by (simp add: fst_play_round keepCount_values)
  have l: "length (take 7 xs) = 7" "length (take 4 xs) = 4" using assms by simp_all
  show b: "fst (play_round 1 (rounds ! 1) (take 7 xs)) = take 4 xs"
    by (simp only: fst_play_round l keepCount_values) simp
  show c: "fst (play_round 2 (rounds ! 2) (take 4 xs)) = take 3 xs"
    by (simp only: fst_play_round l keepCount_values) simp
  show "fst (play_rounds 0 rounds xs) = take 3 xs"
    by (simp only: play_rounds_three a b c)
qed

text \<open>
  Claim C2 fails as stated, in round 1 of a pool of 90 entries. The exact value of
  \<open>max(1, floor(90 \<times> (1 - 0.30)))\<close> is 63. The source computes the product in binary64:
  \<^verbatim>\<open>1 - 0.30\<close> is the number nearest to 0.7, slightly below it, and 90 times that number
  rounds to the binary64 number just below 63, so \<^verbatim>\<open>Math.floor\<close> gives 62 and 62 entries
  survive.
\<close>

theorem round1_of_90_counterexample:
  "keepCount 90 (rounds ! 0) = 62
   \<and> nat (max 1 (floor (rat_of_nat 90 * (1 - 30 / 100)))) = 63
   \<and> fst (play_round 0 (rounds ! 0) [0..<90]) = [0..<62]
   \<and> fst (play_round 0 (rounds ! 0) [0..<90])
       \<noteq> take (nat (max 1 (floor (rat_of_nat 90 * (1 - 30 / 100))))) [0..<90]"
proof -
  have e: "nat (max 1 (floor (rat_of_nat 90 * (1 - 30 / 100)))) = 63" by simp
  have p: "fst (play_round 0 (rounds ! 0) [0..<90]) = [0..<62]"
    by (simp add: fst_play_round keepCount_values)
  have "[0..<62] \<noteq> take 63 [0..<90]"
  proof
    assume "[0..<62] = take 63 [0..<90]"
    then have "length [0..<62] = length (take 63 [0..<90])" by (rule arg_cong)
    then show False by simp
  qed
  with e p keepCount_values(4) show ?thesis by (simp only:) simp
qed

text \<open>
  Claim C2 as amended. For a pool of fewer than \<open>2\<^sup>3\<^sup>2\<close> entries (the bound of an array
  length) and each of the three rounds, with \<open>n\<close> survivors at its start: the survivors after
  the round are exactly the top \<open>k\<close> entries of the ranking and \<open>n - k\<close> are eliminated, as the
  round result reports, whatever the preview frames showed, where \<open>k = keepCount n fraction\<close>
  is \<open>max(1, floor(n \<times> (1 - fraction)))\<close> evaluated in binary64, at least 1 and at most \<open>n\<close>.
  For the fractions 0.40 and 0.25 this \<open>k\<close> is the exact \<open>max(1, floor(0.6 n))\<close> and
  \<open>max(1, floor(0.75 n))\<close>; for 0.30 it is the exact \<open>max(1, floor(0.7 n))\<close> or one less.
  A pool of 10 leaves 7, then 4, then 3.
\<close>

theorem round_keep_counts:
  assumes "xs \<noteq> []" "length xs < 2 ^ 32" "r < 3"
  shows "fst (play_round r (rounds ! r) xs) = take (keepCount (length xs) (rounds ! r)) xs
     \<and> length (fst (play_round r (rounds ! r) xs)) = keepCount (length xs) (rounds ! r)
     \<and> last (snd (play_round r (rounds ! r) xs))
         = Send_round_result (r + 1) (length xs - keepCount (length xs) (rounds ! r))
             (keepCount (length xs) (rounds ! r))
     \<and> 1 \<le> keepCount (length xs) (rounds ! r)
     \<and> keepCount (length xs) (rounds ! r) \<le> length xs
     \<and> (keepCount (length xs) (rounds ! 0) = max 1 (70 * length xs div 100)
          \<or> keepCount (length xs) (rounds ! 0) = max 1 (70 * length xs div 100 - 1))
     \<and> keepCount (length xs) (rounds ! 1) = max 1 (60 * length xs div 100)
     \<and> keepCount (length xs) (rounds ! 2) = max 1 (75 * length xs div 100)
     \<and> (length xs = 10 \<longrightarrow>
          fst (play_round 0 (rounds ! 0) xs) = take 7 xs
          \<and> fst (play_round 1 (rounds ! 1) (take 7 xs)) = take 4 xs
          \<and> fst (play_round 2 (rounds ! 2) (take 4 xs)) = take 3 xs
          \<and> fst (play_rounds 0 rounds xs) = take 3 xs)"
proof -
  have n: "0 < length xs" using assms(1) by simp
  from assms(3) have "r = 0 \<or> r = 1 \<or> r = 2" by arith
  then have "rounds ! r \<in> set rounds" by (auto simp: rounds_def)
  from keepCount_le[OF n assms(2) this] have le: "keepCount (length xs) (rounds ! r) \<le> length xs" .
  have 1: "fst (play_round r (rounds ! r) xs) = take (keepCount (length xs) (rounds ! r)) xs"
    by (rule fst_play_round)
  have 2: "length (fst (play_round r (rounds ! r) xs)) = keepCount (length xs) (rounds ! r)"
    using le by (simp add: fst_play_round)
  have 3: "last (snd (play_round r (rounds ! r) xs))
         = Send_round_result (r + 1) (length xs - keepCount (length xs) (rounds ! r))
             (keepCount (length xs) (rounds ! r))"
    using le by (simp add: snd_play_round_last)
  note 4 = keepCount_ge1[of "length xs" "rounds ! r"]
  note 5 = keepCount_round1[OF assms(2)] keepCount_round2[OF assms(2)] keepCount_round3[OF assms(2)]
  from 1 2 3 4 le 5 ten_seven_four_three[of xs] show ?thesis by blast
qed

text \<open>The pool of 10 entries, numbered by rank.\<close>

theorem round_keep_counts_witness:
  "[0..<10] \<noteq> [] \<and> length [0..<10] < 2 ^ 32 \<and> (0::nat) < 3
   \<and> fst (play_round 0 (rounds ! 0) [0..<10]) = [0..<7]
   \<and> fst (play_round 1 (rounds ! 1) [0..<7]) = [0..<4]
   \<and> fst (play_round 2 (rounds ! 2) [0..<4]) = [0..<3]
   \<and> fst (play_rounds 0 rounds [0..<10]) = [0..<3]"
proof -
  have h: "[0..<10] \<noteq> []" "length [0..<10] < 2 ^ 32" "(0::nat) < 3" by simp_all
  from round_keep_counts[OF h]
  have "length [0..<10] = 10 \<longrightarrow>
          fst (play_round 0 (rounds ! 0) [0..<10]) = take 7 [0..<10]
          \<and> fst (play_round 1 (rounds ! 1) (take 7 [0..<10])) = take 4 [0..<10]
          \<and> fst (play_round 2 (rounds ! 2) (take 4 [0..<10])) = take 3 [0..<10]
          \<and> fst (play_rounds 0 rounds [0..<10]) = take 3 [0..<10]"
    by blast
  moreover have "take 7 [0..<10] = [0..<7]" "take 4 [0..<10] = [0..<4]" "take 3 [0..<10] = [0..<3]"
    "length [0..<10] = 10"
    by simp_all
  ultimately show ?thesis using h by (simp only:) simp
qed

subsection \<open>The final round\<close>






subsection \<open>Final ranking and winner\<close>

lemma run_Inr_D:
  assumes "GW gwId = Some gw" "entries gw \<noteq> []" "runBattleRoyale H env GW gwId = Inr (GW', evs)"
  shows "\<not> falsy (clientSeed1 gw)" "\<not> falsy (clientSeed2 gw)" "channel_found env" "message_found env"
  using assms by (auto simp: runBattleRoyale_def split: if_splits)

lemma select_top_max:
  "select_top xs = Some w \<Longrightarrow> w \<in> set xs \<and> (\<forall>x\<in>set xs. fairness x \<le> fairness w)"
proof (induction xs arbitrary: w)
  case Nil
  then show ?case by simp
next
  case (Cons x xs)
  show ?case
  proof (cases "select_top xs")
    case None
    then have "xs = []" by (simp add: select_top_Nil_iff)
    with Cons.prems None show ?thesis by simp
  next
    case (Some b)
    from Cons.IH[OF Some] have b: "b \<in> set xs" "\<forall>y\<in>set xs. fairness y \<le> fairness b" by auto
    show ?thesis
    proof (cases "fairness b \<le> fairness x")
      case True
      with Some Cons.prems have "w = x" by simp
      with b True show ?thesis by auto
    next
      case False
      with Some Cons.prems have "w = b" by simp
      with b False show ?thesis by auto
    qed
  qed
qed

lemma select_top_first:
  "select_top xs = Some w \<Longrightarrow> sorted_wrt (<) (map fst xs) \<Longrightarrow>
   \<forall>x\<in>set xs. fairness x = fairness w \<longrightarrow> fst w \<le> fst x"
proof (induction xs arbitrary: w)
  case Nil
  then show ?case by simp
next
  case (Cons x xs)
  from Cons.prems(2) have lt: "\<forall>y\<in>set xs. fst x < fst y" and so: "sorted_wrt (<) (map fst xs)"
    by auto
  show ?case
  proof (cases "select_top xs")
    case None
    then have "xs = []" by (simp add: select_top_Nil_iff)
    with Cons.prems None show ?thesis by simp
  next
    case (Some b)
    note IH = Cons.IH[OF Some so]
    show ?thesis
    proof (cases "fairness b \<le> fairness x")
      case True
      with Some Cons.prems have "w = x" by simp
      with lt show ?thesis by (auto simp: less_imp_le)
    next
      case False
      with Some Cons.prems have "w = b" by simp
      with IH False show ?thesis by auto
    qed
  qed
qed

text \<open>
  Claim C10. The winner that the three rounds and the final round leave is the row that
  \<open>select_top\<close> picks directly from the ledger: a row of maximal fairness value, and among
  the rows of that value the one with the lowest ledger index. The fairness values are the
  ones derived from the seeds and the ledger index. That row is the head of the ranking,
  it is still the head of the survivors after rounds 1 to 3, and it is the one survivor of
  the final round.
\<close>

theorem winner_is_top:
  assumes "GW gwId = Some gw" "entries gw \<noteq> []"
    "runBattleRoyale H env GW gwId = Inr (GW', evs)"
  shows "\<exists>gw' w. GW' gwId = Some gw'
           \<and> select_top (enumerate 0 (entries gw')) = Some w
           \<and> winner gw' = Some (snd w)
           \<and> w \<in> set (enumerate 0 (entries gw'))
           \<and> (\<forall>x\<in>set (enumerate 0 (entries gw')). fairness x \<le> fairness w)
           \<and> (\<forall>x\<in>set (enumerate 0 (entries gw')). fairness x = fairness w \<longrightarrow> fst w \<le> fst x)
           \<and> map (pfFloat \<circ> snd) (enumerate 0 (entries gw'))
               = map (derive H (serverSeed gw) (the (clientSeed1 gw)) (the (clientSeed2 gw)) \<circ> fst)
                   (enumerate 0 (entries gw'))
           \<and> w = hd (ranking H (serverSeed gw) (the (clientSeed1 gw)) (the (clientSeed2 gw))
                        (entries gw))
           \<and> hd (fst (play_rounds 0 rounds (ranking H (serverSeed gw) (the (clientSeed1 gw))
                        (the (clientSeed2 gw)) (entries gw)))) = w
           \<and> fst (final_round 0 (fst (play_rounds 0 rounds (ranking H (serverSeed gw)
                        (the (clientSeed1 gw)) (the (clientSeed2 gw)) (entries gw))))) = [w]"
proof -
  note h = run_Inr_D[where GW = GW and gwId = gwId and gw = gw, OF assms]
  let ?sc = "assign_floats H (serverSeed gw) (the (clientSeed1 gw)) (the (clientSeed2 gw)) (entries gw)"
  let ?r = "ranking H (serverSeed gw) (the (clientSeed1 gw)) (the (clientSeed2 gw)) (entries gw)"
  have top: "select_top (enumerate 0 ?sc) = Some (hd ?r)"
    using assms(2) by (rule ranking_top)
  have so: "sorted_wrt (<) (map fst (enumerate 0 ?sc))"
    by (simp only: enumerate_fst sorted_wrt_upt)
  have vals: "map (pfFloat \<circ> snd) (enumerate 0 ?sc)
               = map (derive H (serverSeed gw) (the (clientSeed1 gw)) (the (clientSeed2 gw)) \<circ> fst)
                   (enumerate 0 ?sc)"
    by (rule nth_equalityI) (simp_all add: nth_enumerate_eq assign_floats_nth)
  let ?gw' = "gw\<lparr>entries := ?sc, winner := Some (snd (hd ?r)), finalFloats := Some (map final_row ?r)\<rparr>"
  have "GW' = GW(gwId \<mapsto> ?gw')"
    by (rule run_result_Inr(1)[where GW = GW and gwId = gwId and gw = gw and H = H and env = env,
          OF assms(1) h assms(2) assms(3)])
  then have 1: "GW' gwId = Some ?gw'" by simp
  have e: "entries ?gw' = ?sc" by simp
  have 2: "winner ?gw' = Some (snd (hd ?r))" by simp
  from select_top_max[OF top] have 3: "hd ?r \<in> set (enumerate 0 ?sc)"
    and 4: "\<forall>x\<in>set (enumerate 0 ?sc). fairness x \<le> fairness (hd ?r)" by blast+
  note 5 = select_top_first[OF top so]
  have ne: "?r \<noteq> []" using assms(2) by simp
  from play_rounds_keeps_top[OF ne, of 0 rounds]
  have 6: "fst (play_rounds 0 rounds ?r) \<noteq> []" and 7: "hd (fst (play_rounds 0 rounds ?r)) = hd ?r"
    by simp_all
  have 8: "fst (final_round 0 (fst (play_rounds 0 rounds ?r))) = [hd ?r]"
    using final_round_top[OF 6, of 0] 7 by simp
  show ?thesis
    apply (rule exI[of _ ?gw'])
    apply (rule exI[of _ "hd ?r"])
    unfolding e
    using 1 2 3 4 5 7 8 top vals by blast
qed

lemma demo_seeded_fields:
  "entries demo_seeded = two_entries" "serverSeed demo_seeded = ''server seed''"
  "clientSeed1 demo_seeded = Some ''a''" "clientSeed2 demo_seeded = Some ''b''"
  "winner demo_seeded = None"
  by (simp_all add: demo_seeded_def demo_locked_def demo_open_def)

lemma demo_seeded_ok:
  "demo_store2 ''gw'' = Some demo_seeded" "entries demo_seeded \<noteq> []"
  "\<not> falsy (clientSeed1 demo_seeded)" "\<not> falsy (clientSeed2 demo_seeded)"
  "channel_found demo_env" "message_found demo_env"
  by (simp_all add: demo_store2_def demo_seeded_fields two_entries_def falsy_def demo_env_def)

lemma demo_env_ok: "\<not> thrown demo_env ev" "persists demo_env"
  by (cases ev) (simp_all add: demo_env_def)

lemma assign_floats_two:
  "assign_floats H k c1 c2 [x, y] = [x\<lparr>pfFloat := derive H k c1 c2 0\<rparr>, y\<lparr>pfFloat := derive H k c1 c2 1\<rparr>]"
  by (simp add: assign_floats_def)

lemma select_top_two:
  "select_top (enumerate 0 [x, y]) =
     Some (if fairness (1, y) \<le> fairness (0, x) then (0, x) else (1, y))"
  by (simp add: fairness_def)

text \<open>
  With the stand-in HMAC and the seeds \<open>a\<close>, \<open>b\<close>, the entry at index 0 has fairness value
  \<open>1/2\<close>, the one at index 1 has 0, and the first wins.
\<close>

theorem winner_is_top_witness:
  "demo_store2 ''gw'' = Some demo_seeded \<and> entries demo_seeded \<noteq> []
   \<and> (\<exists>GW' evs gw'. runBattleRoyale toyH demo_env demo_store2 ''gw'' = Inr (GW', evs)
        \<and> GW' ''gw'' = Some gw'
        \<and> map pfFloat (entries gw') = [Some (1 / 2), Some 0]
        \<and> winner gw' = Some \<lparr>entry_id = ''e_0'', userId = ''alice'', username = ''Alice'',
                               pfFloat = Some (1 / 2)\<rparr>)"
proof -
  let ?sc = "assign_floats toyH ''server seed'' ''a'' ''b'' two_entries"
  note rr = run_result_ok[where GW = demo_store2 and gwId = "''gw''" and gw = demo_seeded
      and env = demo_env and H = toyH, OF demo_seeded_ok(1,3,4,5,6,2) demo_env_ok]
  then obtain GW' evs where r: "runBattleRoyale toyH demo_env demo_store2 ''gw'' = Inr (GW', evs)"
    by blast
  from rr r have "\<exists>g. GW' ''gw'' = Some g \<and> entries g = ?sc"
    by (auto simp: demo_seeded_fields)
  moreover
  from winner_is_top[where GW = demo_store2 and gwId = "''gw''" and gw = demo_seeded,
      OF demo_seeded_ok(1,2) r]
  obtain gw' w where g: "GW' ''gw'' = Some gw'"
    and w: "select_top (enumerate 0 (entries gw')) = Some w" "winner gw' = Some (snd w)"
    by blast
  ultimately have e: "entries gw' = ?sc" by simp
  have sc: "?sc = [\<lparr>entry_id = ''e_0'', userId = ''alice'', username = ''Alice'', pfFloat = Some (1 / 2)\<rparr>,
                   \<lparr>entry_id = ''e_1'', userId = ''bob'', username = ''Bob'', pfFloat = Some 0\<rparr>]"
    by (simp add: two_entries_def assign_floats_two derive_toyH)
  from w have "winner gw' = Some \<lparr>entry_id = ''e_0'', userId = ''alice'', username = ''Alice'',
                               pfFloat = Some (1 / 2)\<rparr>"
    unfolding e sc select_top_two by (auto simp: fairness_def)
  moreover have "map pfFloat (entries gw') = [Some (1 / 2), Some 0]"
    unfolding e sc by simp
  ultimately show ?thesis using r g demo_seeded_ok(1,2) by auto
qed


subsection \<open>The order of the ranking\<close>

text \<open>
  Claim C3. The ranking computed at the start of a run lists every ledger index once, each
  row with the fairness value derived for its index, in descending order of fairness value
  and, among equal values, in ascending order of ledger index. The survivors after rounds
  1 to 3 and after the final round are prefixes of this one list: it is never sorted again.
\<close>

theorem ranking_order:
  "sorted_wrt ranks_before (ranking H s c1 c2 es)
   \<and> mset (map fst (ranking H s c1 c2 es)) = mset [0..<length es]
   \<and> map (pfFloat \<circ> snd) (ranking H s c1 c2 es)
       = map (derive H s c1 c2 \<circ> fst) (ranking H s c1 c2 es)
   \<and> map (entry_id \<circ> snd) (ranking H s c1 c2 es)
       = map (\<lambda>ie. entry_id (es ! fst ie)) (ranking H s c1 c2 es)
   \<and> prefix (fst (play_rounds 0 rounds (ranking H s c1 c2 es))) (ranking H s c1 c2 es)
   \<and> prefix (fst (final_round 0 (fst (play_rounds 0 rounds (ranking H s c1 c2 es)))))
        (ranking H s c1 c2 es)"
proof -
  have "map (entry_id \<circ> snd) (ranking H s c1 c2 es)
       = map (\<lambda>ie. entry_id (es ! fst ie)) (ranking H s c1 c2 es)"
    by (rule map_cong[OF refl]) (simp add: ranking_member(2))
  moreover have "prefix (fst (final_round 0 (fst (play_rounds 0 rounds (ranking H s c1 c2 es)))))
        (ranking H s c1 c2 es)"
    using final_round_prefix play_rounds_prefix by (rule prefix_order.trans)
  ultimately show ?thesis
    using ranking_sorted ranking_indices ranking_values play_rounds_prefix by blast
qed


section \<open>The join task\<close>

lemma Max_insert_max:
  "finite S \<Longrightarrow> Max (insert (max c k) S) = Max (insert c (insert (k::int) S))"
  by (cases "S = {}") (simp_all add: max.assoc)

lemma matching_counts_Nil [simp]: "matching_counts roles [] = []"
  by (simp add: matching_counts_def)

lemma matching_counts_null [simp]: "matching_counts roles (None # res) = []"
  by (simp add: matching_counts_def)

lemma matching_counts_Some:
  "matching_counts roles (Some re # res)
      = (if roleId re \<noteq> [] \<and> roleId re \<in> set roles
         then (case role_entries re of None \<Rightarrow> [] | Some k \<Rightarrow> if k = 0 then [] else [sint k])
         else []) @ matching_counts roles res"
  by (simp add: matching_counts_def)

lemma role_loop_Max:
  "role_loop roles res c = Max (set (c # matching_counts roles res))"
proof (induction res arbitrary: c)
  case Nil
  show ?case by simp
next
  case (Cons x res)
  show ?case
  proof (cases x)
    case None
    then show ?thesis by simp
  next
    case (Some re)
    show ?thesis
    proof (cases "roleId re \<noteq> [] \<and> roleId re \<in> set roles")
      case False
      then have "role_loop roles (Some re # res) c = role_loop roles res c" by auto
      moreover from False have "matching_counts roles (Some re # res) = matching_counts roles res"
        by (simp only: matching_counts_Some if_False append_Nil)
      ultimately show ?thesis unfolding Some by (simp only: Cons.IH)
    next
      case True
      show ?thesis
      proof (cases "role_entries re = None \<or> role_entries re = Some 0")
        case skip: True
        with True have "role_loop roles (Some re # res) c = role_loop roles res c" by auto
        moreover from skip True
        have "matching_counts roles (Some re # res) = matching_counts roles res"
          by (auto simp: matching_counts_Some)
        ultimately show ?thesis unfolding Some by (simp only: Cons.IH)
      next
        case False
        then obtain k where k: "role_entries re = Some k" "k \<noteq> 0" by auto
        with True have "role_loop roles (Some re # res) c = role_loop roles res (max c (sint k))"
          by (simp add: parseInt_num_def)
        also have "\<dots> = Max (set (max c (sint k) # matching_counts roles res))"
          by (rule Cons.IH)
        also have "\<dots> = Max (insert c (insert (sint k) (set (matching_counts roles res))))"
          using Max_insert_max[of "set (matching_counts roles res)" c "sint k"] by simp
        finally show ?thesis unfolding Some using k True by (simp add: matching_counts_Some)
      qed
    qed
  qed
qed

lemma new_rows_length [simp]: "length (new_rows fresh i c) = nat c"
  by (simp add: new_rows_def)

text \<open>
  Claim C7, as the code has it. A processed join appends \<open>max(0, c)\<close> rows of the requester
  to the ledger and adds the same number to the requester's total (0 when the requester
  has none yet), where \<open>c\<close> is computed from the setup as follows. The base count \<open>B\<close> is
  \<open>baseEntries\<close>, or 1 when \<open>baseEntries\<close> is missing or zero. When the member cannot be
  resolved, or \<open>roleEntries\<close> is not an array, \<open>c = B\<close>. Otherwise \<open>c\<close> is the maximum of \<open>B\<close>
  and the configured counts of the role elements that the member holds, elements without
  a role id or without a count (or with the count zero) being passed over; at a \<^verbatim>\<open>null\<close>
  element the loop ends with an exception, which is logged, and \<open>c\<close> is the maximum reached
  up to there.
\<close>

theorem join_task_grant:
  "\<exists>rows.
     join_task fresh i gw =
       (gw\<lparr>entries := entries gw @ rows,
            entrantsByUser := (entrantsByUser gw)(user_id i \<mapsto>
               (case entrantsByUser gw (user_id i) of None \<Rightarrow> 0 | Some k \<Rightarrow> k) + length rows)\<rparr>,
        length rows)
   \<and> rows = map (\<lambda>k. \<lparr>entry_id = fresh k, userId = user_id i, username = user_name i,
                        pfFloat = None\<rparr>) [0..<length rows]
   \<and> int (length rows) =
       max 0 (let B = (case baseEntries (gw_setup gw) of
                         None \<Rightarrow> 1
                       | Some k \<Rightarrow> if k = 0 then 1 else sint k)
              in case member_roles i of
                   None \<Rightarrow> B
                 | Some roles \<Rightarrow>
                     (case roleEntries (gw_setup gw) of
                        None \<Rightarrow> B
                      | Some res \<Rightarrow> Max (set (B # matching_counts roles res))))"
proof -
  let ?c = "entryCount (gw_setup gw) (member_roles i)"
  let ?rows = "new_rows fresh i ?c"
  have 1: "join_task fresh i gw =
       (gw\<lparr>entries := entries gw @ ?rows,
            entrantsByUser := (entrantsByUser gw)(user_id i \<mapsto>
               (case entrantsByUser gw (user_id i) of None \<Rightarrow> 0 | Some k \<Rightarrow> k) + length ?rows)\<rparr>,
        length ?rows)"
    by (simp add: join_task_def Let_def)
  have 2: "?rows = map (\<lambda>k. \<lparr>entry_id = fresh k, userId = user_id i, username = user_name i,
                        pfFloat = None\<rparr>) [0..<length ?rows]"
    by (simp add: new_rows_def)
  have "?c = (let B = (case baseEntries (gw_setup gw) of
                         None \<Rightarrow> 1
                       | Some k \<Rightarrow> if k = 0 then 1 else sint k)
              in case member_roles i of
                   None \<Rightarrow> B
                 | Some roles \<Rightarrow>
                     (case roleEntries (gw_setup gw) of
                        None \<Rightarrow> B
                      | Some res \<Rightarrow> Max (set (B # matching_counts roles res))))"
    by (simp add: entryCount_def base_count_def parseInt_num_def role_loop_Max Let_def
          split: option.splits)
  then have 3: "int (length ?rows) =
       max 0 (let B = (case baseEntries (gw_setup gw) of
                         None \<Rightarrow> 1
                       | Some k \<Rightarrow> if k = 0 then 1 else sint k)
              in case member_roles i of
                   None \<Rightarrow> B
                 | Some roles \<Rightarrow>
                     (case roleEntries (gw_setup gw) of
                        None \<Rightarrow> B
                      | Some res \<Rightarrow> Max (set (B # matching_counts roles res))))"
    by simp
  show ?thesis
  proof (intro exI conjI)
    show "join_task fresh i gw =
       (gw\<lparr>entries := entries gw @ ?rows,
            entrantsByUser := (entrantsByUser gw)(user_id i \<mapsto>
               (case entrantsByUser gw (user_id i) of None \<Rightarrow> 0 | Some k \<Rightarrow> k) + length ?rows)\<rparr>,
        length ?rows)" by (rule 1)
    show "?rows = map (\<lambda>k. \<lparr>entry_id = fresh k, userId = user_id i, username = user_name i,
                        pfFloat = None\<rparr>) [0..<length ?rows]" by (rule 2)
    show "int (length ?rows) =
       max 0 (let B = (case baseEntries (gw_setup gw) of
                         None \<Rightarrow> 1
                       | Some k \<Rightarrow> if k = 0 then 1 else sint k)
              in case member_roles i of
                   None \<Rightarrow> B
                 | Some roles \<Rightarrow>
                     (case roleEntries (gw_setup gw) of
                        None \<Rightarrow> B
                      | Some res \<Rightarrow> Max (set (B # matching_counts roles res))))" by (rule 3)
  qed
qed

lemma tiered_counts:
  "matching_counts [''vip''] tiered_roles = [5]"
  "matching_counts [] tiered_roles = []"
  "matching_counts [''mod'', ''gold''] tiered_roles = []"
  by (simp_all add: tiered_roles_def matching_counts_Some)

lemma demo_counts:
  "matching_counts [''vip''] demo_roles = [5]"
  "matching_counts [] demo_roles = []"
  by (simp_all add: demo_roles_def matching_counts_Some)

lemma example_setups:
  "gw_setup tiered_gw = tiered_setup" "entrantsByUser tiered_gw = Map.empty"
  "entries tiered_gw = []" "gw_setup vip_gw = demo_setup" "entrantsByUser vip_gw = Map.empty"
  "entries vip_gw = []"
  "baseEntries tiered_setup = Some 2" "roleEntries tiered_setup = Some tiered_roles"
  "baseEntries demo_setup = Some 1" "roleEntries demo_setup = Some demo_roles"
  "member_roles alice = Some [''vip'']" "member_roles bob = Some []"
  "member_roles dana = Some [''mod'', ''gold'']" "member_roles erin = None"
  "user_id alice = ''alice''"
  by (simp_all add: tiered_gw_def vip_gw_def demo_open_def tiered_setup_def demo_setup_def
        alice_def bob_def dana_def erin_def)

text \<open>
  With the base count 2: Alice (vip) is granted 5 entries, Bob (no role) 2, Dana 2, since
  her role \<open>gold\<close> stands behind the \<^verbatim>\<open>null\<close> element, and Erin, whose member cannot be
  fetched, 2. With the setup of the specification's scenario Bob is granted 1 entry and
  Alice 5, and 5 more when she joins again, which makes her total 10.
\<close>

theorem join_task_grant_witness:
  "snd (join_task demo_ids alice tiered_gw) = 5
   \<and> snd (join_task demo_ids bob tiered_gw) = 2
   \<and> snd (join_task demo_ids dana tiered_gw) = 2
   \<and> snd (join_task demo_ids erin tiered_gw) = 2
   \<and> length (entries (fst (join_task demo_ids alice tiered_gw))) = 5
   \<and> entrantsByUser (fst (join_task demo_ids alice tiered_gw)) ''alice'' = Some 5
   \<and> snd (join_task demo_ids bob vip_gw) = 1
   \<and> snd (join_task demo_ids alice vip_gw) = 5
   \<and> snd (join_task demo_ids alice (fst (join_task demo_ids alice vip_gw))) = 5
   \<and> entrantsByUser (fst (join_task demo_ids alice (fst (join_task demo_ids alice vip_gw))))
        ''alice'' = Some 10
   \<and> length (entries (fst (join_task demo_ids alice (fst (join_task demo_ids alice vip_gw))))) = 10"
proof -
  note ex = example_setups
  have a: "snd (join_task demo_ids alice tiered_gw) = 5
      \<and> length (entries (fst (join_task demo_ids alice tiered_gw))) = 5
      \<and> entrantsByUser (fst (join_task demo_ids alice tiered_gw)) ''alice'' = Some 5"
    using join_task_grant[of demo_ids alice tiered_gw]
    by (clarsimp simp: ex tiered_counts Let_def)
  have b: "snd (join_task demo_ids bob tiered_gw) = 2"
    using join_task_grant[of demo_ids bob tiered_gw]
    by (clarsimp simp: ex tiered_counts Let_def)
  have d: "snd (join_task demo_ids dana tiered_gw) = 2"
    using join_task_grant[of demo_ids dana tiered_gw]
    by (clarsimp simp: ex tiered_counts Let_def)
  have e: "snd (join_task demo_ids erin tiered_gw) = 2"
    using join_task_grant[of demo_ids erin tiered_gw]
    by (clarsimp simp: ex Let_def)
  have vb: "snd (join_task demo_ids bob vip_gw) = 1"
    using join_task_grant[of demo_ids bob vip_gw]
    by (clarsimp simp: ex demo_counts Let_def)
  let ?g = "fst (join_task demo_ids alice vip_gw)"
  have g: "snd (join_task demo_ids alice vip_gw) = 5 \<and> gw_setup ?g = demo_setup
      \<and> entrantsByUser ?g ''alice'' = Some 5 \<and> length (entries ?g) = 5"
    using join_task_grant[of demo_ids alice vip_gw]
    by (clarsimp simp: ex demo_counts Let_def)
  have va2: "snd (join_task demo_ids alice ?g) = 5
     \<and> entrantsByUser (fst (join_task demo_ids alice ?g)) ''alice'' = Some 10
     \<and> length (entries (fst (join_task demo_ids alice ?g))) = 10"
    using join_task_grant[of demo_ids alice ?g] g
    by (clarsimp simp: ex demo_counts Let_def)
  from a b d e vb g va2 show ?thesis by simp
qed

text \<open>
  The claim as worded fails for a base count below zero. With \<open>baseEntries = -2\<close> and no
  role element the specified number of entries is \<open>-2\<close> (and 1 if the default is taken to
  apply), but the loop that appends the rows does not run: the join is answered with 0
  entries, the ledger stays as it is, and the requester's total is set to 0.
\<close>

theorem negative_base_counterexample:
  "baseEntries (gw_setup negative_gw) = Some (- 2)
   \<and> roleEntries (gw_setup negative_gw) = Some []
   \<and> specified_grant (gw_setup negative_gw) [] = - 2
   \<and> join_task demo_ids bob negative_gw
       = (negative_gw\<lparr>entrantsByUser := [''bob'' \<mapsto> 0]\<rparr>, 0)
   \<and> entries negative_gw = []
   \<and> process_next demo_ids True
        \<lparr>GIVEAWAYS = [''gw'' \<mapsto> negative_gw], queue = [(''gw'', bob)], timers = [], runs = []\<rparr>
       = (\<lparr>GIVEAWAYS = [''gw'' \<mapsto> negative_gw\<lparr>entrantsByUser := [''bob'' \<mapsto> 0]\<rparr>], queue = [],
           timers = [], runs = []\<rparr>, Some (You_joined 0))"
proof -
  have s: "gw_setup negative_gw = negative_setup" "entries negative_gw = []"
    "entrantsByUser negative_gw = Map.empty"
    by (simp_all add: negative_gw_def demo_open_def)
  have c: "entryCount negative_setup (Some []) = - 2"
    by (simp add: entryCount_def base_count_def parseInt_num_def negative_setup_def)
  have j: "join_task demo_ids bob negative_gw
       = (negative_gw\<lparr>entrantsByUser := [''bob'' \<mapsto> 0]\<rparr>, 0)"
    by (simp add: join_task_def Let_def c new_rows_def bob_def negative_gw_def demo_open_def)
  have g: "specified_grant (gw_setup negative_gw) [] = - 2"
    by (simp add: s specified_grant_def negative_setup_def)
  show ?thesis
    using j g by (simp add: s process_next_def negative_setup_def)
qed


section \<open>The final round and the end of a run\<close>



lemma length_final_previews [simp]: "length (final_previews c ys) = 5"
  by (simp add: final_previews_def updates_def)







section \<open>Custom ids and seed submission\<close>

lemma split_on_no_sep: "c \<notin> set a \<Longrightarrow> split_on c a = [a]"
  by (induction a) auto


lemma split_on_nonempty: "split_on c s \<noteq> []"
  by (induction s) (auto split: list.splits)

lemma split_on_free: "x \<in> set (split_on c s) \<Longrightarrow> c \<notin> set x"
proof (induction s arbitrary: x)
  case Nil
  then show ?case by simp
next
  case (Cons y s)
  show ?case
  proof (cases "y = c")
    case True
    with Cons show ?thesis by auto
  next
    case False
    obtain z zs where z: "split_on c s = z # zs"
      using split_on_nonempty[of c s] by (cases "split_on c s") auto
    with False Cons.prems have "x = y # z \<or> x \<in> set zs" by auto
    with Cons.IH z False show ?thesis by auto
  qed
qed

lemma giveaway_key_free: "CHR ''_'' \<notin> set (giveaway_key customId)"
proof (cases "split_on CHR ''_'' customId")
  case Nil
  then show ?thesis by (simp add: giveaway_key_def)
next
  case (Cons a as)
  show ?thesis
  proof (cases as)
    case Nil
    with Cons show ?thesis by (simp add: giveaway_key_def)
  next
    case (Cons k rest)
    with \<open>split_on CHR ''_'' customId = a # as\<close> have "k \<in> set (split_on CHR ''_'' customId)" by simp
    from split_on_free[OF this] Cons \<open>split_on CHR ''_'' customId = a # as\<close>
    show ?thesis by (simp add: giveaway_key_def)
  qed
qed

lemma start_id_sep: "CHR ''_'' \<in> set (start_id t)"
  by (simp add: start_id_def)














end
